theory Spec2Isabelle
  imports Complex_Main "HOL-Library.AList"
begin

section \<open>Data model\<close>

text \<open>
  The pallet packing engine of the planner: \<^verbatim>\<open>PalletOptimizer\<close> with its
  orientation generator, grid-based layer packer, layer selector, pallet builder,
  driver and freight classifier.

  A JavaScript \<^verbatim>\<open>number\<close> that holds a measurement, a weight or a quantity is an
  exact real number here: the rounding of IEEE doubles, infinities and NaN are not
  part of the model. Loop counters and pallet ids are natural numbers.
  A \<^verbatim>\<open>throw\<close> is the left summand of the result, and a loop that may run forever
  is a function into \<open>option\<close>, where \<open>None\<close> is not returning.
\<close>

datatype UnitType = Each | Case

datatype WeightUnit = Lbs | Kg

record SKU =
  sku_id :: string
  sku_name :: string
  sku_length :: real
  sku_width :: real
  sku_height :: real
  sku_weight :: real
  sku_packType :: string
  sku_description :: "string option"

record OrderItem =
  oi_sku :: SKU
  oi_quantity :: real
  oi_unitType :: UnitType

record PalletSize =
  ps_length :: real
  ps_width :: real

record PlacedItem =
  pl_sku :: SKU
  pl_quantity :: real
  pl_x :: real
  pl_y :: real
  pl_width :: real
  pl_length :: real
  pl_rotated :: bool

record Layer =
  ly_items :: "PlacedItem list"
  ly_height :: real
  ly_weight :: real

text \<open>The optional \<^verbatim>\<open>freightClass\<close> of a pallet is always set by the builder.\<close>

record Pallet =
  pal_id :: nat
  pal_layers :: "Layer list"
  pal_totalHeight :: real
  pal_totalWeight :: real
  pal_palletSize :: PalletSize
  pal_freightClass :: string

record Position =
  pos_x :: nat
  pos_y :: nat
  pos_rotated :: bool

record OrientationOption =
  oo_length :: real
  oo_width :: real
  oo_height :: real
  oo_footprintArea :: real

record PackingItem =
  pi_sku :: SKU
  pi_unitType :: UnitType
  pi_remaining :: real
  pi_orientations :: "OrientationOption list"
  pi_weight :: real

record LayerCandidate =
  lc_layer :: Layer
  lc_usage :: "(string \<times> nat) list"
  lc_areaUsed :: real
  lc_efficiency :: real
  lc_wasteVolume :: real
  lc_weightBase :: real
  lc_perfectFit :: bool
  lc_perfectlyDivisible :: bool

record LayerQueueItem =
  lq_sku :: SKU
  lq_unitType :: UnitType
  lq_weight :: real
  lq_remaining :: real
  lq_orientationOptions :: "OrientationOption list"
  lq_maxArea :: real

text \<open>The private fields of a \<^verbatim>\<open>PalletOptimizer\<close> instance.\<close>

record optimizer =
  palletSize :: PalletSize
  maxHeight :: real
  maxWeightBase :: real
  weightUnit :: WeightUnit
  palletArea :: real

text \<open>
  Every error of the engine is an \<^verbatim>\<open>Error\<close> with a message; the constructors stand
  for the five messages, with the SKU name and id the message quotes.
\<close>

datatype error =
  MaxHeightNotPositive
  | MaxWeightNotPositive
  | SkuExceedsPallet string string
  | UnableToPackSku string string
  | UnableToPackRemaining

definition EPSILON :: real where
  "EPSILON = 1 / 1000000"

definition HEIGHT_TOLERANCE :: real where
  "HEIGHT_TOLERANCE = 1 / 1000"

section \<open>Construction and unit conversion\<close>

definition toBaseWeight :: "optimizer \<Rightarrow> real \<Rightarrow> real" where
  "toBaseWeight this w = (if weightUnit this = Lbs then w else w * 2.20462)"

text \<open>
  The constructor stores the fields (the weight limit converted with the unit it has
  just stored) and then validates the two budgets. The footprint is not validated.
\<close>

definition newPalletOptimizer ::
  "PalletSize \<Rightarrow> real \<Rightarrow> real \<Rightarrow> WeightUnit \<Rightarrow> error + optimizer" where
  "newPalletOptimizer sz mh mw unit =
     (let this = \<lparr> palletSize = sz, maxHeight = mh, maxWeightBase = 0,
                   weightUnit = unit, palletArea = 0 \<rparr>;
          this = this \<lparr> maxWeightBase := toBaseWeight this mw \<rparr>;
          this = this \<lparr> palletArea := ps_length (palletSize this) * ps_width (palletSize this) \<rparr>
      in if maxHeight this \<le> 0 then Inl MaxHeightNotPositive
         else if maxWeightBase this \<le> 0 then Inl MaxWeightNotPositive
         else Inr this)"

section \<open>Orientation generator\<close>

text \<open>
  \<^verbatim>\<open>v.toFixed(3)\<close> prints a minus sign when \<open>v < 0\<close> and then the digits of
  \<open>\<bar>v\<bar> * 1000\<close> rounded to the nearest integer, a half rounded up. Two numbers print
  the same text exactly when this pair agrees, so the pair stands for the text.
\<close>

definition toFixed3 :: "real \<Rightarrow> bool \<times> int" where
  "toFixed3 v = (v < 0, \<lfloor>\<bar>v\<bar> * 1000 + 1 / 2\<rfloor>)"

type_synonym orientationKey = "(bool \<times> int) \<times> (bool \<times> int) \<times> (bool \<times> int)"

definition orientationKey :: "real \<Rightarrow> real \<Rightarrow> real \<Rightarrow> orientationKey" where
  "orientationKey l w h = (toFixed3 l, toFixed3 w, toFixed3 h)"

definition orientationPermutations :: "SKU \<Rightarrow> (real \<times> real \<times> real) list" where
  "orientationPermutations sku =
     (let d0 = sku_length sku; d1 = sku_width sku; d2 = sku_height sku
      in [(d0, d1, d2), (d0, d2, d1), (d1, d0, d2), (d1, d2, d0), (d2, d0, d1), (d2, d1, d0)])"

definition fitsFootprint :: "optimizer \<Rightarrow> real \<Rightarrow> real \<Rightarrow> bool" where
  "fitsFootprint this l w =
     ((l \<le> ps_length (palletSize this) + EPSILON \<and> w \<le> ps_width (palletSize this) + EPSILON) \<or>
      (w \<le> ps_length (palletSize this) + EPSILON \<and> l \<le> ps_width (palletSize this) + EPSILON))"

text \<open>
  One round of the \<^verbatim>\<open>forEach\<close> over the permutations. \<open>unique\<close> is the
  \<^verbatim>\<open>Map\<close> in insertion order.
\<close>

fun addOrientation ::
  "optimizer \<Rightarrow> (orientationKey \<times> OrientationOption) list \<Rightarrow> real \<times> real \<times> real
     \<Rightarrow> (orientationKey \<times> OrientationOption) list" where
  "addOrientation this unique (l, w, h) =
     (if h > maxHeight this + HEIGHT_TOLERANCE then unique
      else if \<not> fitsFootprint this l w then unique
      else let key = orientationKey l w h
           in if map_of unique key = None
              then unique @ [(key, \<lparr> oo_length = l, oo_width = w, oo_height = h,
                                      oo_footprintArea = l * w \<rparr>)]
              else unique)"

definition generateOrientationOptions :: "optimizer \<Rightarrow> SKU \<Rightarrow> OrientationOption list" where
  "generateOrientationOptions this sku =
     map snd (fold (\<lambda>p unique. addOrientation this unique p) (orientationPermutations sku) [])"

section \<open>Occupancy grid and bottom-left placement\<close>

text \<open>
  The grid is \<^verbatim>\<open>boolean[][]\<close> with \<open>\<lceil>length\<rceil>\<close> rows of \<open>\<lceil>width\<rceil>\<close> cells. The
  source reads \<^verbatim>\<open>grid[0].length\<close>, which raises on an empty grid; the model of
  the grid operations is the source's on footprints of positive length and width, and
  every theorem on packing assumes such a footprint.
\<close>

definition createGrid :: "optimizer \<Rightarrow> bool list list" where
  "createGrid this =
     replicate (nat \<lceil>ps_length (palletSize this)\<rceil>)
       (replicate (nat \<lceil>ps_width (palletSize this)\<rceil>) False)"

text \<open>
  \<open>x\<close> and \<open>y\<close> are loop counters of \<open>findPosition\<close>, so their floor is themselves.
  A negative end of a range leaves the range empty, as in the source.
\<close>

definition cellEndX :: "bool list list \<Rightarrow> nat \<Rightarrow> real \<Rightarrow> nat" where
  "cellEndX grid x len = min (nat \<lceil>real x + len\<rceil>) (length grid)"

definition cellEndY :: "bool list list \<Rightarrow> nat \<Rightarrow> real \<Rightarrow> nat" where
  "cellEndY grid y wid = min (nat \<lceil>real y + wid\<rceil>) (length (grid ! 0))"

definition canPlaceAt :: "bool list list \<Rightarrow> nat \<Rightarrow> nat \<Rightarrow> real \<Rightarrow> real \<Rightarrow> bool" where
  "canPlaceAt grid x y len wid =
     (let endX = cellEndX grid x len; endY = cellEndY grid y wid
      in list_all (\<lambda>i. list_all (\<lambda>j. \<not> grid ! i ! j) [y..<endY]) [x..<endX])"

definition markGridOccupied ::
  "bool list list \<Rightarrow> nat \<Rightarrow> nat \<Rightarrow> real \<Rightarrow> real \<Rightarrow> bool list list" where
  "markGridOccupied grid x y len wid =
     (let endX = cellEndX grid x len; endY = cellEndY grid y wid
      in fold (\<lambda>i g. fold (\<lambda>j g'. g'[i := (g' ! i)[j := True]]) [y..<endY] g) [x..<endX] grid)"

text \<open>The values of \<^verbatim>\<open>for (let x = 0; x <= bound; x++)\<close>.\<close>

definition scanRange :: "real \<Rightarrow> nat list" where
  "scanRange bound = (if bound < 0 then [] else [0..<nat \<lfloor>bound\<rfloor> + 1])"

definition findPosition :: "optimizer \<Rightarrow> bool list list \<Rightarrow> real \<Rightarrow> real \<Rightarrow> (nat \<times> nat) option" where
  "findPosition this grid len wid =
     (if len > ps_length (palletSize this) + EPSILON \<or> wid > ps_width (palletSize this) + EPSILON
      then None
      else List.find (\<lambda>(x, y). canPlaceAt grid x y len wid)
             (List.product (scanRange (ps_length (palletSize this) - len))
                           (scanRange (ps_width (palletSize this) - wid))))"

definition findBestPosition :: "optimizer \<Rightarrow> bool list list \<Rightarrow> real \<Rightarrow> real \<Rightarrow> Position option" where
  "findBestPosition this grid len wid =
     (case findPosition this grid len wid of
        Some (x, y) \<Rightarrow> Some \<lparr> pos_x = x, pos_y = y, pos_rotated = False \<rparr>
      | None \<Rightarrow>
          (case findPosition this grid wid len of
             Some (x, y) \<Rightarrow> Some \<lparr> pos_x = x, pos_y = y, pos_rotated = True \<rparr>
           | None \<Rightarrow> None))"

fun findPlacementForOptions ::
  "optimizer \<Rightarrow> bool list list \<Rightarrow> OrientationOption list \<Rightarrow> (OrientationOption \<times> Position) option" where
  "findPlacementForOptions this grid [] = None"
| "findPlacementForOptions this grid (option # options) =
     (case findBestPosition this grid (oo_length option) (oo_width option) of
        Some position \<Rightarrow> Some (option, position)
      | None \<Rightarrow> findPlacementForOptions this grid options)"

section \<open>Layer packer\<close>

text \<open>
  \<^verbatim>\<open>Array.prototype.sort\<close> is stable; it is a stable insertion sort here, on the
  comparator the source passes. On a comparator that is a consistent ordering every
  stable sort returns this list.
\<close>

fun insertBy :: "('a \<Rightarrow> 'a \<Rightarrow> real) \<Rightarrow> 'a \<Rightarrow> 'a list \<Rightarrow> 'a list" where
  "insertBy cmp x [] = [x]"
| "insertBy cmp x (y # ys) = (if cmp x y \<le> 0 then x # y # ys else y # insertBy cmp x ys)"

definition sortBy :: "('a \<Rightarrow> 'a \<Rightarrow> real) \<Rightarrow> 'a list \<Rightarrow> 'a list" where
  "sortBy cmp xs = foldr (insertBy cmp) xs []"

text \<open>The working variables of one \<^verbatim>\<open>packLayerForHeight\<close> call.\<close>

record packing =
  pk_grid :: "bool list list"
  pk_placedItems :: "PlacedItem list"
  pk_usage :: "(string \<times> nat) list"
  pk_areaUsed :: real
  pk_layerWeightInput :: real
  pk_layerWeightBase :: real

definition toQueueItem :: "real \<Rightarrow> PackingItem \<Rightarrow> LayerQueueItem option" where
  "toQueueItem layerHeight item =
     (case filter (\<lambda>option. \<bar>oo_height option - layerHeight\<bar> \<le> HEIGHT_TOLERANCE)
             (pi_orientations item) of
        [] \<Rightarrow> None
      | option # rest \<Rightarrow>
          Some \<lparr> lq_sku = pi_sku item, lq_unitType = pi_unitType item,
                 lq_weight = pi_weight item, lq_remaining = pi_remaining item,
                 lq_orientationOptions = option # rest,
                 lq_maxArea = fold max (map oo_footprintArea rest) (oo_footprintArea option) \<rparr>)"

definition layerQueue :: "PackingItem list \<Rightarrow> real \<Rightarrow> LayerQueueItem list" where
  "layerQueue inventory layerHeight =
     sortBy (\<lambda>a b. lq_maxArea b - lq_maxArea a)
       (List.map_filter (toQueueItem layerHeight)
          (filter (\<lambda>item. pi_remaining item > 0) inventory))"

text \<open>The body of the \<^verbatim>\<open>while\<close> loop after a placement was found.\<close>

definition placeUnit ::
  "LayerQueueItem \<Rightarrow> real \<Rightarrow> OrientationOption \<Rightarrow> Position \<Rightarrow> packing \<Rightarrow> packing" where
  "placeUnit candidate skuWeightBase option position st =
     (let placedLength = (if pos_rotated position then oo_width option else oo_length option);
          placedWidth = (if pos_rotated position then oo_length option else oo_width option);
          placed = \<lparr> pl_sku = lq_sku candidate, pl_quantity = 1,
                     pl_x = real (pos_x position), pl_y = real (pos_y position),
                     pl_width = placedWidth, pl_length = placedLength,
                     pl_rotated = pos_rotated position \<rparr>
      in \<lparr> pk_grid = markGridOccupied (pk_grid st) (pos_x position) (pos_y position)
                       placedLength placedWidth,
           pk_placedItems = pk_placedItems st @ [placed],
           pk_usage = AList.update (sku_id (lq_sku candidate))
                        ((case map_of (pk_usage st) (sku_id (lq_sku candidate)) of
                            None \<Rightarrow> 0 | Some n \<Rightarrow> n) + 1)
                        (pk_usage st),
           pk_areaUsed = pk_areaUsed st + placedLength * placedWidth,
           pk_layerWeightInput = pk_layerWeightInput st + lq_weight candidate,
           pk_layerWeightBase = pk_layerWeightBase st + skuWeightBase \<rparr>)"

text \<open>
  \<^verbatim>\<open>while (candidate.remaining > 0)\<close>: \<open>remaining\<close> is the queue item's own
  counter, which nothing reads after the loop.
\<close>

function placeUnits ::
  "optimizer \<Rightarrow> real \<Rightarrow> LayerQueueItem \<Rightarrow> OrientationOption list \<Rightarrow> real \<Rightarrow> real
     \<Rightarrow> packing \<Rightarrow> packing" where
  "placeUnits this maxWeightRemainingBase candidate sortedOptions skuWeightBase remaining st =
     (if remaining > 0 then
        if pk_layerWeightBase st + skuWeightBase > maxWeightRemainingBase + EPSILON then st
        else (case findPlacementForOptions this (pk_grid st) sortedOptions of
                None \<Rightarrow> st
              | Some (option, position) \<Rightarrow>
                  placeUnits this maxWeightRemainingBase candidate sortedOptions skuWeightBase
                    (remaining - 1) (placeUnit candidate skuWeightBase option position st))
      else st)"
  by pat_completeness auto
termination
  by (relation "measure (\<lambda>(this, m, c, so, w, remaining, st). nat \<lceil>remaining\<rceil>)")
    (simp_all add: nat_less_iff)

declare placeUnits.simps [simp del]

definition packCandidate :: "optimizer \<Rightarrow> real \<Rightarrow> LayerQueueItem \<Rightarrow> packing \<Rightarrow> packing" where
  "packCandidate this maxWeightRemainingBase candidate st =
     (let skuWeightBase = toBaseWeight this (lq_weight candidate)
      in if skuWeightBase \<le> 0 then st
         else placeUnits this maxWeightRemainingBase candidate
                (sortBy (\<lambda>a b. oo_footprintArea b - oo_footprintArea a)
                   (lq_orientationOptions candidate))
                skuWeightBase (lq_remaining candidate) st)"

definition isDivisible :: "real \<Rightarrow> real \<Rightarrow> bool" where
  "isDivisible totalHeight layerHeight =
     (if layerHeight \<le> HEIGHT_TOLERANCE then False
      else let quotient = totalHeight / layerHeight
           in \<bar>quotient - of_int \<lfloor>quotient + 1 / 2\<rfloor>\<bar> \<le> HEIGHT_TOLERANCE)"

definition packLayerForHeight ::
  "optimizer \<Rightarrow> PackingItem list \<Rightarrow> real \<Rightarrow> real \<Rightarrow> real \<Rightarrow> LayerCandidate option" where
  "packLayerForHeight this inventory layerHeight maxHeightRemaining maxWeightRemainingBase =
     (let queue = layerQueue inventory layerHeight
      in if queue = [] then None
         else let st = fold (packCandidate this maxWeightRemainingBase) queue
                         \<lparr> pk_grid = createGrid this, pk_placedItems = [], pk_usage = [],
                           pk_areaUsed = 0, pk_layerWeightInput = 0, pk_layerWeightBase = 0 \<rparr>
              in if pk_placedItems st = [] then None
                 else let totalArea = palletArea this;
                          perfectFit = (\<bar>pk_areaUsed st - totalArea\<bar> \<le> EPSILON)
                      in Some \<lparr> lc_layer = \<lparr> ly_items = pk_placedItems st,
                                              ly_height = layerHeight,
                                              ly_weight = pk_layerWeightInput st \<rparr>,
                                 lc_usage = pk_usage st,
                                 lc_areaUsed = pk_areaUsed st,
                                 lc_efficiency = min 1 (pk_areaUsed st / totalArea),
                                 lc_wasteVolume = max 0 ((totalArea - pk_areaUsed st) * layerHeight),
                                 lc_weightBase = pk_layerWeightBase st,
                                 lc_perfectFit = perfectFit,
                                 lc_perfectlyDivisible =
                                   (perfectFit \<and> isDivisible maxHeightRemaining layerHeight) \<rparr>)"

section \<open>Layer selector\<close>

definition normalizeHeight :: "real \<Rightarrow> real" where
  "normalizeHeight v = of_int \<lfloor>v / HEIGHT_TOLERANCE + 1 / 2\<rfloor> * HEIGHT_TOLERANCE"

text \<open>\<open>heightMap\<close> is the \<^verbatim>\<open>Map\<close> from normalised to first seen height, in insertion order.\<close>

definition addHeight :: "real \<Rightarrow> OrientationOption \<Rightarrow> (real \<times> real) list \<Rightarrow> (real \<times> real) list" where
  "addHeight maxHeightRemaining option heightMap =
     (if oo_height option \<le> maxHeightRemaining + HEIGHT_TOLERANCE
      then let key = normalizeHeight (oo_height option)
           in if map_of heightMap key = None then heightMap @ [(key, oo_height option)]
              else heightMap
      else heightMap)"

definition collectHeights :: "PackingItem list \<Rightarrow> real \<Rightarrow> (real \<times> real) list" where
  "collectHeights inventory maxHeightRemaining =
     fold (\<lambda>item heightMap.
             if pi_remaining item \<le> 0 then heightMap
             else fold (addHeight maxHeightRemaining) (pi_orientations item) heightMap)
       inventory []"

definition layerCandidates :: "optimizer \<Rightarrow> PackingItem list \<Rightarrow> real \<Rightarrow> real \<Rightarrow> LayerCandidate list" where
  "layerCandidates this inventory maxHeightRemaining maxWeightRemainingBase =
     List.map_filter
       (\<lambda>heightValue. packLayerForHeight this inventory heightValue maxHeightRemaining
                         maxWeightRemainingBase)
       (map snd (collectHeights inventory maxHeightRemaining))"

definition compareCandidates :: "LayerCandidate \<Rightarrow> LayerCandidate \<Rightarrow> real" where
  "compareCandidates a b =
     (if \<bar>lc_efficiency a - lc_efficiency b\<bar> > EPSILON
      then lc_efficiency b - lc_efficiency a
      else if \<bar>lc_wasteVolume a - lc_wasteVolume b\<bar> > EPSILON
      then lc_wasteVolume a - lc_wasteVolume b
      else if \<bar>ly_height (lc_layer a) - ly_height (lc_layer b)\<bar> > HEIGHT_TOLERANCE
      then ly_height (lc_layer b) - ly_height (lc_layer a)
      else lc_weightBase b - lc_weightBase a)"

text \<open>Element 0 of the sorted copy; of an empty array it is \<^verbatim>\<open>undefined\<close>.\<close>

definition pickBestCandidate :: "LayerCandidate list \<Rightarrow> LayerCandidate option" where
  "pickBestCandidate candidates =
     (case sortBy compareCandidates candidates of [] \<Rightarrow> None | best # rest \<Rightarrow> Some best)"

definition selectNextLayer ::
  "optimizer \<Rightarrow> PackingItem list \<Rightarrow> real \<Rightarrow> real \<Rightarrow> LayerCandidate option" where
  "selectNextLayer this inventory maxHeightRemaining maxWeightRemainingBase =
     (if maxWeightRemainingBase \<le> EPSILON then None
      else if collectHeights inventory maxHeightRemaining = [] then None
      else let candidates = layerCandidates this inventory maxHeightRemaining maxWeightRemainingBase
           in if candidates = [] then None
              else let perfectlyDivisible = filter lc_perfectlyDivisible candidates
                   in if perfectlyDivisible \<noteq> [] then pickBestCandidate perfectlyDivisible
                      else let perfectFits = filter lc_perfectFit candidates
                           in if perfectFits \<noteq> [] then pickBestCandidate perfectFits
                              else pickBestCandidate candidates)"

section \<open>Freight classifier\<close>

definition freightDensity :: "optimizer \<Rightarrow> real \<Rightarrow> real \<Rightarrow> real" where
  "freightDensity this weightInputUnits height =
     (let weightLbs = (if weightUnit this = Lbs then weightInputUnits
                       else toBaseWeight this weightInputUnits);
          volume = (ps_length (palletSize this) * ps_width (palletSize this) * max height EPSILON)
                   / 1728
      in weightLbs / volume)"

definition calculateFreightClass :: "optimizer \<Rightarrow> real \<Rightarrow> real \<Rightarrow> string" where
  "calculateFreightClass this weightInputUnits height =
     (let density = freightDensity this weightInputUnits height
      in if density > 50 then ''Class 50''
         else if density > 35 then ''Class 55''
         else if density > 30 then ''Class 60''
         else if density > 22.5 then ''Class 65''
         else if density > 15 then ''Class 70''
         else if density > 13.5 then ''Class 77.5''
         else if density > 12 then ''Class 85''
         else if density > 10.5 then ''Class 92.5''
         else if density > 9 then ''Class 100''
         else if density > 8 then ''Class 110''
         else if density > 7 then ''Class 125''
         else if density > 6 then ''Class 150''
         else if density > 5 then ''Class 175''
         else if density > 4 then ''Class 200''
         else if density > 3 then ''Class 250''
         else if density > 2 then ''Class 300''
         else if density > 1 then ''Class 400''
         else ''Class 500'')"

section \<open>Pallet builder\<close>

definition hasRemaining :: "PackingItem list \<Rightarrow> bool" where
  "hasRemaining inventory = list_ex (\<lambda>item. pi_remaining item > 0) inventory"

definition getFirstRemainingItem :: "PackingItem list \<Rightarrow> PackingItem option" where
  "getFirstRemainingItem inventory = List.find (\<lambda>item. pi_remaining item > 0) inventory"

text \<open>
  \<^verbatim>\<open>inventory.find(item => item.sku.id === skuId)\<close> and the update of the item it
  finds; the inventory is returned, since the source mutates the item in place.
\<close>

fun consume :: "PackingItem list \<Rightarrow> string \<Rightarrow> nat \<Rightarrow> PackingItem list" where
  "consume [] skuId count = []"
| "consume (item # inventory) skuId count =
     (if sku_id (pi_sku item) = skuId
      then item \<lparr> pi_remaining := max 0 (pi_remaining item - real count) \<rparr> # inventory
      else item # consume inventory skuId count)"

definition applyUsage :: "(string \<times> nat) list \<Rightarrow> PackingItem list \<Rightarrow> PackingItem list" where
  "applyUsage usage inventory = fold (\<lambda>(skuId, count) inv. consume inv skuId count) usage inventory"

text \<open>
  The \<^verbatim>\<open>while\<close> loop of \<^verbatim>\<open>buildPallet\<close> on its five variables and the
  inventory. It returns them when the loop ends.
\<close>

partial_function (option) buildPalletLoop ::
  "optimizer \<Rightarrow> PackingItem list \<Rightarrow> Layer list \<Rightarrow> real \<Rightarrow> real \<Rightarrow> real
     \<Rightarrow> (Layer list \<times> real \<times> real \<times> real \<times> PackingItem list) option" where
  "buildPalletLoop this inventory layers currentHeight currentWeightInput currentWeightBase =
     (if hasRemaining inventory then
        if maxHeight this - currentHeight \<le> HEIGHT_TOLERANCE
           \<or> maxWeightBase this - currentWeightBase \<le> EPSILON
        then Some (layers, currentHeight, currentWeightInput, currentWeightBase, inventory)
        else (case selectNextLayer this inventory (maxHeight this - currentHeight)
                     (maxWeightBase this - currentWeightBase) of
                None \<Rightarrow> Some (layers, currentHeight, currentWeightInput, currentWeightBase, inventory)
              | Some nextLayer \<Rightarrow>
                  buildPalletLoop this (applyUsage (lc_usage nextLayer) inventory)
                    (layers @ [lc_layer nextLayer])
                    (currentHeight + ly_height (lc_layer nextLayer))
                    (currentWeightInput + ly_weight (lc_layer nextLayer))
                    (currentWeightBase + lc_weightBase nextLayer))
      else Some (layers, currentHeight, currentWeightInput, currentWeightBase, inventory))"

declare buildPalletLoop.simps [code]

definition buildPallet :: "optimizer \<Rightarrow> PackingItem list \<Rightarrow> nat \<Rightarrow> (Pallet \<times> PackingItem list) option" where
  "buildPallet this inventory palletId =
     Option.bind (buildPalletLoop this inventory [] 0 0 0)
       (\<lambda>(layers, currentHeight, currentWeightInput, currentWeightBase, inventory').
          Some (\<lparr> pal_id = palletId, pal_layers = layers, pal_totalHeight = currentHeight,
                   pal_totalWeight = currentWeightInput, pal_palletSize = palletSize this,
                   pal_freightClass = calculateFreightClass this currentWeightInput currentHeight \<rparr>,
                inventory'))"

section \<open>Optimizer driver\<close>

fun initializeInventoryFrom ::
  "optimizer \<Rightarrow> OrderItem list \<Rightarrow> PackingItem list \<Rightarrow> error + PackingItem list" where
  "initializeInventoryFrom this [] inventory = Inr inventory"
| "initializeInventoryFrom this (item # items) inventory =
     (if oi_quantity item \<le> 0 then initializeInventoryFrom this items inventory
      else let orientations = generateOrientationOptions this (oi_sku item)
           in if orientations = []
              then Inl (SkuExceedsPallet (sku_name (oi_sku item)) (sku_id (oi_sku item)))
              else initializeInventoryFrom this items
                     (inventory @ [\<lparr> pi_sku = oi_sku item, pi_unitType = oi_unitType item,
                                      pi_remaining = oi_quantity item,
                                      pi_orientations = orientations,
                                      pi_weight = sku_weight (oi_sku item) \<rparr>]))"

definition initializeInventory :: "optimizer \<Rightarrow> OrderItem list \<Rightarrow> error + PackingItem list" where
  "initializeInventory this items = initializeInventoryFrom this items []"

definition blockingError :: "PackingItem list \<Rightarrow> error" where
  "blockingError inventory =
     (case getFirstRemainingItem inventory of
        Some blockingItem \<Rightarrow>
          UnableToPackSku (sku_name (pi_sku blockingItem)) (sku_id (pi_sku blockingItem))
      | None \<Rightarrow> UnableToPackRemaining)"

partial_function (option) optimizeLoop ::
  "optimizer \<Rightarrow> PackingItem list \<Rightarrow> Pallet list \<Rightarrow> nat \<Rightarrow> (error + Pallet list) option" where
  "optimizeLoop this inventory pallets palletId =
     (if hasRemaining inventory then
        Option.bind (buildPallet this inventory palletId)
          (\<lambda>(pallet, inventory').
             if pal_layers pallet = [] then Some (Inl (blockingError inventory'))
             else optimizeLoop this inventory' (pallets @ [pallet]) (palletId + 1))
      else Some (Inr pallets))"

declare optimizeLoop.simps [code]

definition optimize :: "optimizer \<Rightarrow> OrderItem list \<Rightarrow> (error + Pallet list) option" where
  "optimize this items =
     (case initializeInventory this items of
        Inl e \<Rightarrow> Some (Inl e)
      | Inr inventory \<Rightarrow> optimizeLoop this inventory [] 1)"

section \<open>Specification-side notions and invariants\<close>

text \<open>
  The threshold table of the freight classifier as the specification lists it, highest
  density first, to be compared with the chain of tests in \<open>calculateFreightClass\<close>.
\<close>

definition freightClassTable :: "(real \<times> string) list" where
  "freightClassTable =
     [(50, ''Class 50''), (35, ''Class 55''), (30, ''Class 60''), (22.5, ''Class 65''),
      (15, ''Class 70''), (13.5, ''Class 77.5''), (12, ''Class 85''), (10.5, ''Class 92.5''),
      (9, ''Class 100''), (8, ''Class 110''), (7, ''Class 125''), (6, ''Class 150''),
      (5, ''Class 175''), (4, ''Class 200''), (3, ''Class 250''), (2, ''Class 300''),
      (1, ''Class 400'')]"

definition freightClassOfDensity :: "real \<Rightarrow> string" where
  "freightClassOfDensity d =
     (case List.find (\<lambda>(threshold, cls). d > threshold) freightClassTable of
        Some (threshold, cls) \<Rightarrow> cls
      | None \<Rightarrow> ''Class 500'')"

definition freightClassified :: "optimizer \<Rightarrow> Pallet \<Rightarrow> bool" where
  "freightClassified opt pallet =
     (let weightLbs = (if weightUnit opt = Kg then pal_totalWeight pallet * 2.20462
                       else pal_totalWeight pallet);
          volume = (ps_length (palletSize opt) * ps_width (palletSize opt)
                      * max (pal_totalHeight pallet) EPSILON) / 1728
      in 0 < volume \<and> pal_freightClass pallet = freightClassOfDensity (weightLbs / volume))"





text \<open>
  Placement in the specification's words: the footprint of a placed item is the half-open
  rectangle \<open>[x, x + length) \<times> [y, y + width)\<close>.
\<close>

definition footprint :: "PlacedItem \<Rightarrow> (real \<times> real) set" where
  "footprint p =
     {(a, b). pl_x p \<le> a \<and> a < pl_x p + pl_length p \<and> pl_y p \<le> b \<and> b < pl_y p + pl_width p}"

definition footprintsIntersect :: "PlacedItem \<Rightarrow> PlacedItem \<Rightarrow> bool" where
  "footprintsIntersect p q =
     (max (pl_x p) (pl_x q) < min (pl_x p + pl_length p) (pl_x q + pl_length q) \<and>
      max (pl_y p) (pl_y q) < min (pl_y p + pl_width p) (pl_y q + pl_width q))"

definition withinFootprint :: "optimizer \<Rightarrow> PlacedItem \<Rightarrow> bool" where
  "withinFootprint opt p =
     (0 \<le> pl_x p \<and> 0 \<le> pl_y p \<and>
      pl_x p + pl_length p \<le> ps_length (palletSize opt) \<and>
      pl_y p + pl_width p \<le> ps_width (palletSize opt))"

text \<open>
  The invariant of the occupancy grid during one \<open>packLayerForHeight\<close> call: the grid
  keeps its shape, every placed item lies within the footprint at whole-number
  coordinates, every cell that meets a placed footprint is marked, and no two placed
  footprints intersect.
\<close>

definition cellCovered :: "PlacedItem \<Rightarrow> nat \<Rightarrow> nat \<Rightarrow> bool" where
  "cellCovered p i j =
     (pl_x p < real i + 1 \<and> real i < pl_x p + pl_length p \<and>
      pl_y p < real j + 1 \<and> real j < pl_y p + pl_width p)"

definition gridInvariant :: "optimizer \<Rightarrow> packing \<Rightarrow> bool" where
  "gridInvariant opt st =
     (length (pk_grid st) = nat \<lceil>ps_length (palletSize opt)\<rceil> \<and>
      (\<forall>row\<in>set (pk_grid st). length row = nat \<lceil>ps_width (palletSize opt)\<rceil>) \<and>
      (\<forall>p\<in>set (pk_placedItems st).
         withinFootprint opt p \<and> pl_x p \<in> \<nat> \<and> pl_y p \<in> \<nat> \<and>
         (\<forall>i j. cellCovered p i j \<longrightarrow> pk_grid st ! i ! j)) \<and>
      sorted_wrt (\<lambda>p q. \<not> footprintsIntersect p q) (pk_placedItems st))"

text \<open>
  A placed item uses an orientation when its placed length and width are the
  orientation's, swapped when the item is flagged as rotated.
\<close>

definition placedWith :: "OrientationOption \<Rightarrow> PlacedItem \<Rightarrow> bool" where
  "placedWith option p =
     (if pl_rotated p
      then pl_length p = oo_width option \<and> pl_width p = oo_length option
      else pl_length p = oo_length option \<and> pl_width p = oo_width option)"

definition heightHomogeneous :: "optimizer \<Rightarrow> Layer \<Rightarrow> bool" where
  "heightHomogeneous opt layer =
     list_all (\<lambda>p. list_ex (\<lambda>option. \<bar>oo_height option - ly_height layer\<bar> \<le> HEIGHT_TOLERANCE
                                    \<and> placedWith option p)
                     (generateOrientationOptions opt (pl_sku p)))
       (ly_items layer)"

text \<open>The weight of the placed units of a layer and of a pallet, in pounds.\<close>

definition layerWeightLbs :: "optimizer \<Rightarrow> Layer \<Rightarrow> real" where
  "layerWeightLbs opt layer =
     sum_list (map (\<lambda>p. toBaseWeight opt (sku_weight (pl_sku p))) (ly_items layer))"

definition palletWeightLbs :: "optimizer \<Rightarrow> Pallet \<Rightarrow> real" where
  "palletWeightLbs opt pallet = sum_list (map (layerWeightLbs opt) (pal_layers pallet))"


text \<open>The inventory item that \<open>initializeInventory\<close> pushes for an order line.\<close>

definition packingItemOf :: "optimizer \<Rightarrow> OrderItem \<Rightarrow> PackingItem" where
  "packingItemOf opt item =
     \<lparr> pi_sku = oi_sku item, pi_unitType = oi_unitType item, pi_remaining = oi_quantity item,
       pi_orientations = generateOrientationOptions opt (oi_sku item),
       pi_weight = sku_weight (oi_sku item) \<rparr>"

text \<open>
  The number of placed items of a SKU id, in a list of placed items and in a list of
  layers, and the count a usage map holds for the id (zero when the id has no entry).
\<close>

definition unitsIn :: "string \<Rightarrow> PlacedItem list \<Rightarrow> nat" where
  "unitsIn skuId placed = length (filter (\<lambda>p. sku_id (pl_sku p) = skuId) placed)"

definition layerUnits :: "string \<Rightarrow> Layer list \<Rightarrow> nat" where
  "layerUnits skuId layers = sum_list (map (\<lambda>layer. unitsIn skuId (ly_items layer)) layers)"

definition usageCount :: "(string \<times> nat) list \<Rightarrow> string \<Rightarrow> nat" where
  "usageCount usage skuId = (case map_of usage skuId of None \<Rightarrow> 0 | Some n \<Rightarrow> n)"

text \<open>
  An inventory is sound when its SKU ids are pairwise distinct and no remaining quantity
  is negative.
\<close>

definition inventorySound :: "PackingItem list \<Rightarrow> bool" where
  "inventorySound inventory =
     (distinct (map (\<lambda>item. sku_id (pi_sku item)) inventory) \<and>
      (\<forall>item\<in>set inventory. 0 \<le> pi_remaining item))"




text \<open>The measure of the loops on a sound inventory: the units still to place.\<close>

definition unitsLeft :: "PackingItem list \<Rightarrow> nat" where
  "unitsLeft inventory = sum_list (map (\<lambda>item. nat \<lceil>pi_remaining item\<rceil>) inventory)"

text \<open>
  What \<open>initializeInventory\<close> establishes for every inventory item and the builder
  keeps: the orientations are those generated for the item's SKU and the weight is the
  SKU's.
\<close>

definition inventoryConsistent :: "optimizer \<Rightarrow> PackingItem list \<Rightarrow> bool" where
  "inventoryConsistent opt inventory =
     (\<forall>item\<in>set inventory.
        pi_orientations item = generateOrientationOptions opt (pi_sku item) \<and>
        pi_weight item = sku_weight (pi_sku item))"

section \<open>Example data\<close>

definition unitBox :: SKU where
  "unitBox = \<lparr> sku_id = ''A'', sku_name = ''unit box'', sku_length = 1, sku_width = 1,
               sku_height = 1, sku_weight = 1, sku_packType = ''box'',
               sku_description = None \<rparr>"

definition weightlessBox :: SKU where
  "weightlessBox = \<lparr> sku_id = ''Z'', sku_name = ''weightless box'', sku_length = 1,
                     sku_width = 1, sku_height = 1, sku_weight = 0, sku_packType = ''box'',
                     sku_description = None \<rparr>"

definition crate :: SKU where
  "crate = \<lparr> sku_id = ''B'', sku_name = ''crate'', sku_length = 2, sku_width = 2,
             sku_height = 2, sku_weight = 1, sku_packType = ''box'', sku_description = None \<rparr>"

definition drum :: SKU where
  "drum = \<lparr> sku_id = ''D'', sku_name = ''drum'', sku_length = 3, sku_width = 3,
            sku_height = 3, sku_weight = 1, sku_packType = ''drum'', sku_description = None \<rparr>"

definition orderLine :: "SKU \<Rightarrow> real \<Rightarrow> OrderItem" where
  "orderLine sku quantity = \<lparr> oi_sku = sku, oi_quantity = quantity, oi_unitType = Each \<rparr>"

text \<open>A one by one footprint, one unit high, ten pounds.\<close>

definition smallPallet :: optimizer where
  "smallPallet = \<lparr> palletSize = \<lparr> ps_length = 1, ps_width = 1 \<rparr>, maxHeight = 1,
                   maxWeightBase = 10, weightUnit = Lbs, palletArea = 1 \<rparr>"

definition inventoryOf :: "optimizer \<Rightarrow> SKU \<Rightarrow> real \<Rightarrow> PackingItem" where
  "inventoryOf opt sku quantity =
     \<lparr> pi_sku = sku, pi_unitType = Each, pi_remaining = quantity,
       pi_orientations = generateOrientationOptions opt sku, pi_weight = sku_weight sku \<rparr>"

definition emptyPallet :: "optimizer \<Rightarrow> nat \<Rightarrow> Pallet" where
  "emptyPallet opt palletId =
     \<lparr> pal_id = palletId, pal_layers = [], pal_totalHeight = 0, pal_totalWeight = 0,
       pal_palletSize = palletSize opt, pal_freightClass = ''Class 500'' \<rparr>"

text \<open>A two by one footprint, two units high, ten pounds.\<close>

definition widePallet :: optimizer where
  "widePallet = \<lparr> palletSize = \<lparr> ps_length = 2, ps_width = 1 \<rparr>, maxHeight = 2,
                  maxWeightBase = 10, weightUnit = Lbs, palletArea = 2 \<rparr>"

definition unitBoxAt :: "real \<Rightarrow> real \<Rightarrow> PlacedItem" where
  "unitBoxAt x y = \<lparr> pl_sku = unitBox, pl_quantity = 1, pl_x = x, pl_y = y, pl_width = 1,
                      pl_length = 1, pl_rotated = False \<rparr>"











section \<open>Loop rules\<close>

lemma buildPalletLoop_invariant:
  assumes run: "buildPalletLoop opt inventory layers h wi wb = Some (layers', h', wi', wb', inventory')"
    and init: "I inventory layers h wi wb"
    and step: "\<And>inv ls ch cwi cwb c.
        I inv ls ch cwi cwb \<Longrightarrow> hasRemaining inv \<Longrightarrow>
        \<not> maxHeight opt - ch \<le> HEIGHT_TOLERANCE \<Longrightarrow>
        \<not> maxWeightBase opt - cwb \<le> EPSILON \<Longrightarrow>
        selectNextLayer opt inv (maxHeight opt - ch) (maxWeightBase opt - cwb) = Some c \<Longrightarrow>
        I (applyUsage (lc_usage c) inv) (ls @ [lc_layer c]) (ch + ly_height (lc_layer c))
          (cwi + ly_weight (lc_layer c)) (cwb + lc_weightBase c)"
  shows "I inventory' layers' h' wi' wb' \<and>
         (\<not> hasRemaining inventory' \<or> maxHeight opt - h' \<le> HEIGHT_TOLERANCE
          \<or> maxWeightBase opt - wb' \<le> EPSILON
          \<or> selectNextLayer opt inventory' (maxHeight opt - h') (maxWeightBase opt - wb') = None)"
proof -
  define Q where "Q = (\<lambda>r. case r of (layers', h', wi', wb', inventory') \<Rightarrow>
           I inventory' layers' h' wi' wb' \<and>
           (\<not> hasRemaining inventory' \<or> maxHeight opt - h' \<le> HEIGHT_TOLERANCE
            \<or> maxWeightBase opt - wb' \<le> EPSILON
            \<or> selectNextLayer opt inventory' (maxHeight opt - h') (maxWeightBase opt - wb') = None))"
  have "opt0 = opt \<longrightarrow> I inv0 ls0 h0 wi0 wb0 \<longrightarrow> Q r"
    if "buildPalletLoop opt0 inv0 ls0 h0 wi0 wb0 = Some r" for opt0 inv0 ls0 h0 wi0 wb0 r
  proof (rule buildPalletLoop.raw_induct
      [where P = "\<lambda>opt0 inv0 ls0 h0 wi0 wb0 r. opt0 = opt \<longrightarrow> I inv0 ls0 h0 wi0 wb0 \<longrightarrow> Q r",
       OF _ that], goal_cases)
    case (1 loop opt1 inv ls ch cwi cwb r1)
    show ?case
    proof (intro impI)
      assume eq: "opt1 = opt" and I: "I inv ls ch cwi cwb"
      show "Q r1"
      proof (cases "hasRemaining inv \<and> \<not> maxHeight opt - ch \<le> HEIGHT_TOLERANCE
                     \<and> \<not> maxWeightBase opt - cwb \<le> EPSILON")
        case False
        with 1(2) eq I show ?thesis by (auto simp: Q_def split: if_splits)
      next
        case True
        show ?thesis
        proof (cases "selectNextLayer opt inv (maxHeight opt - ch) (maxWeightBase opt - cwb)")
          case None
          with 1(2) eq I True show ?thesis by (auto simp: Q_def)
        next
          case (Some c)
          with 1(2) eq True
          have "loop opt (applyUsage (lc_usage c) inv) (ls @ [lc_layer c])
                  (ch + ly_height (lc_layer c)) (cwi + ly_weight (lc_layer c))
                  (cwb + lc_weightBase c) = Some r1"
            by auto
          from 1(1)[OF this] step[OF I _ _ _ Some] True show ?thesis by simp
        qed
      qed
    qed
  qed
  from this[OF run] init show ?thesis by (simp add: Q_def)
qed

lemma optimizeLoop_invariant:
  assumes run: "optimizeLoop opt inventory pallets palletId = Some (Inr result)"
    and init: "I inventory pallets palletId"
    and step: "\<And>inv ps pid pallet inv'.
        I inv ps pid \<Longrightarrow> hasRemaining inv \<Longrightarrow>
        buildPallet opt inv pid = Some (pallet, inv') \<Longrightarrow> pal_layers pallet \<noteq> [] \<Longrightarrow>
        I inv' (ps @ [pallet]) (pid + 1)"
  shows "\<exists>inv pid. I inv result pid \<and> \<not> hasRemaining inv"
proof -
  define Q where "Q = (\<lambda>r :: error + Pallet list. \<forall>res. r = Inr res \<longrightarrow> (\<exists>inv pid. I inv res pid \<and> \<not> hasRemaining inv))"
  have "opt0 = opt \<longrightarrow> I inv0 ps0 pid0 \<longrightarrow> Q r"
    if "optimizeLoop opt0 inv0 ps0 pid0 = Some r" for opt0 inv0 ps0 pid0 r
  proof (rule optimizeLoop.raw_induct
      [where P = "\<lambda>opt0 inv0 ps0 pid0 r. opt0 = opt \<longrightarrow> I inv0 ps0 pid0 \<longrightarrow> Q r",
       OF _ that], goal_cases)
    case (1 loop opt1 inv ps pid r1)
    show ?case
    proof (intro impI)
      assume eq: "opt1 = opt" and I: "I inv ps pid"
      show "Q r1"
      proof (cases "hasRemaining inv")
        case False
        with 1(2) I show ?thesis by (auto simp: Q_def)
      next
        case True
        with 1(2) eq obtain pallet inv' where
          b: "buildPallet opt inv pid = Some (pallet, inv')"
          and rest: "(if pal_layers pallet = [] then Some (Inl (blockingError inv'))
                else loop opt inv' (ps @ [pallet]) (pid + 1)) = Some r1"
          by (auto simp: bind_eq_Some_conv)
        show ?thesis
        proof (cases "pal_layers pallet = []")
          case True
          with rest show ?thesis by (auto simp: Q_def)
        next
          case False
          with rest have l: "loop opt inv' (ps @ [pallet]) (pid + 1) = Some r1" by simp
          from 1(1)[OF l] step[OF I True b False] show ?thesis by simp
        qed
      qed
    qed
  qed
  from this[OF run] init show ?thesis by (simp add: Q_def)
qed

lemma constructed_limits:
  assumes "newPalletOptimizer sz mh mw unit = Inr opt"
  shows "0 < maxHeight opt \<and> 0 < maxWeightBase opt \<and> palletSize opt = sz \<and>
         palletArea opt = ps_length sz * ps_width sz \<and> weightUnit opt = unit"
  using assms by (auto simp: newPalletOptimizer_def Let_def split: if_splits)

lemma smallPallet_constructed:
  "newPalletOptimizer \<lparr> ps_length = 1, ps_width = 1 \<rparr> 1 10 Lbs = Inr smallPallet"
  by (simp add: newPalletOptimizer_def smallPallet_def toBaseWeight_def Let_def)

lemma calculateFreightClass_table:
  "calculateFreightClass opt w h = freightClassOfDensity (freightDensity opt w h)"
  by (simp add: calculateFreightClass_def freightClassOfDensity_def freightClassTable_def Let_def)

lemma buildPallet_freightClassified:
  assumes "0 < ps_length (palletSize opt)" "0 < ps_width (palletSize opt)"
    and "buildPallet opt inventory palletId = Some (pallet, inventory')"
  shows "freightClassified opt pallet"
proof -
  have "0 < max h EPSILON" for h by (simp add: EPSILON_def max_def)
  then have "0 < ps_length (palletSize opt) * ps_width (palletSize opt) * max h EPSILON" for h
    using assms(1,2) by simp
  with assms(3) show ?thesis
    by (cases "weightUnit opt")
       (auto simp: buildPallet_def bind_eq_Some_conv freightClassified_def
        calculateFreightClass_table freightDensity_def toBaseWeight_def Let_def)
qed

lemma optimize_pallets:
  assumes run: "optimize opt items = Some (Inr pallets)"
    and init: "\<And>inv. initializeInventory opt items = Inr inv \<Longrightarrow> R inv"
    and step: "\<And>inv pid pallet inv'. R inv \<Longrightarrow> hasRemaining inv \<Longrightarrow>
                 buildPallet opt inv pid = Some (pallet, inv') \<Longrightarrow> pal_layers pallet \<noteq> [] \<Longrightarrow> P pallet \<and> R inv'"
  shows "\<forall>pallet\<in>set pallets. P pallet"
proof -
  from run obtain inv0 where i: "initializeInventory opt items = Inr inv0"
    and l: "optimizeLoop opt inv0 [] 1 = Some (Inr pallets)"
    by (auto simp: optimize_def split: sum.splits)
  define I0 where "I0 = (\<lambda>(i::PackingItem list) (ps::Pallet list) (pid::nat).
      R i \<and> (\<forall>pallet\<in>set ps. P pallet))"
  have "\<exists>i pid. I0 i pallets pid \<and> \<not> hasRemaining i"
  proof (rule optimizeLoop_invariant[OF l])
    show "I0 inv0 [] 1" using init[OF i] by (simp add: I0_def)
  next
    fix i ps pid pallet i'
    assume "I0 i ps pid" "hasRemaining i" "buildPallet opt i pid = Some (pallet, i')"
      "pal_layers pallet \<noteq> []"
    with step[of i pid pallet i'] show "I0 i' (ps @ [pallet]) (pid + 1)"
      by (auto simp: I0_def)
  qed
  then show ?thesis by (auto simp: I0_def)
qed

lemma initializeInventoryFrom_filter:
  "initializeInventoryFrom opt (filter (\<lambda>item. 0 < oi_quantity item) items) acc
     = initializeInventoryFrom opt items acc"
  by (induction items arbitrary: acc) (auto simp: Let_def)

lemma buildPallet_no_layers_inventory:
  assumes "buildPallet opt inventory palletId = Some (pallet, inventory')"
    and "pal_layers pallet = []"
  shows "inventory' = inventory"
proof -
  from assms obtain h wi wb where
    l: "buildPalletLoop opt inventory [] 0 0 0 = Some ([], h, wi, wb, inventory')"
    by (auto simp: buildPallet_def bind_eq_Some_conv)
  define I0 where "I0 = (\<lambda>(i::PackingItem list) (ls::Layer list) (ch::real) (cwi::real)
      (cwb::real). ls \<noteq> [] \<or> i = inventory)"
  have "I0 inventory' [] h wi wb \<and>
        (\<not> hasRemaining inventory' \<or> maxHeight opt - h \<le> HEIGHT_TOLERANCE
          \<or> maxWeightBase opt - wb \<le> EPSILON
          \<or> selectNextLayer opt inventory' (maxHeight opt - h) (maxWeightBase opt - wb) = None)"
    by (rule buildPalletLoop_invariant[OF l]) (simp_all add: I0_def)
  then show ?thesis by (simp add: I0_def)
qed

subsection \<open>Orientation generator\<close>







subsection \<open>Occupancy grid\<close>

lemma footprintsIntersect_iff: "footprintsIntersect p q \<longleftrightarrow> footprint p \<inter> footprint q \<noteq> {}"
proof
  assume i: "footprintsIntersect p q"
  then have "(max (pl_x p) (pl_x q), max (pl_y p) (pl_y q)) \<in> footprint p \<inter> footprint q"
    by (auto simp: footprintsIntersect_def footprint_def)
  then show "footprint p \<inter> footprint q \<noteq> {}" by blast
next
  assume "footprint p \<inter> footprint q \<noteq> {}"
  then obtain a b where "(a, b) \<in> footprint p" "(a, b) \<in> footprint q" by auto
  then show "footprintsIntersect p q"
    by (auto simp: footprintsIntersect_def footprint_def)
qed

lemma markRow_length: "length (fold (\<lambda>j r. r[j := True]) js r) = length r"
  by (induction js arbitrary: r) auto

lemma markRow_nth:
  "k < length r \<Longrightarrow> fold (\<lambda>j r. r[j := True]) js r ! k = (r ! k \<or> k \<in> set js)"
proof (induction js arbitrary: r)
  case Nil
  show ?case by simp
next
  case (Cons a js)
  have "fold (\<lambda>j r. r[j := True]) js (r[a := True]) ! k = (r[a := True] ! k \<or> k \<in> set js)"
    by (rule Cons.IH) (simp add: Cons.prems)
  then show ?case using Cons.prems by (cases "k = a") auto
qed

lemma markCells_row:
  "i < length g \<Longrightarrow>
   fold (\<lambda>j g'. g'[i := (g' ! i)[j := True]]) js g = g[i := fold (\<lambda>j r. r[j := True]) js (g ! i)]"
  by (induction js arbitrary: g) auto

lemma markRows_cell:
  assumes "\<forall>i\<in>set is. i < length g" and "k < length g" and "m < length (g ! k)"
  shows "length (fold (\<lambda>i g. fold (\<lambda>j g'. g'[i := (g' ! i)[j := True]]) js g) is g) = length g \<and>
         length (fold (\<lambda>i g. fold (\<lambda>j g'. g'[i := (g' ! i)[j := True]]) js g) is g ! k) = length (g ! k) \<and>
         fold (\<lambda>i g. fold (\<lambda>j g'. g'[i := (g' ! i)[j := True]]) js g) is g ! k ! m
           = (g ! k ! m \<or> (k \<in> set is \<and> m \<in> set js))"
  using assms
proof (induction "is" arbitrary: g)
  case Nil
  show ?case by simp
next
  case (Cons i "is")
  define g1 where "g1 = g[i := fold (\<lambda>j r. r[j := True]) js (g ! i)]"
  have i: "i < length g" using Cons.prems by simp
  have step: "fold (\<lambda>j g'. g'[i := (g' ! i)[j := True]]) js g = g1"
    unfolding g1_def using i by (rule markCells_row)
  have len: "length g1 = length g" by (simp add: g1_def)
  have row: "length (g1 ! k) = length (g ! k)"
    using Cons.prems(2) by (cases "k = i") (simp_all add: g1_def markRow_length)
  have cell: "g1 ! k ! m = (g ! k ! m \<or> (k = i \<and> m \<in> set js))"
    using Cons.prems(2,3) by (cases "k = i") (simp_all add: g1_def markRow_nth)
  have IH: "length (fold (\<lambda>i g. fold (\<lambda>j g'. g'[i := (g' ! i)[j := True]]) js g) is g1) = length g1 \<and>
         length (fold (\<lambda>i g. fold (\<lambda>j g'. g'[i := (g' ! i)[j := True]]) js g) is g1 ! k) = length (g1 ! k) \<and>
         fold (\<lambda>i g. fold (\<lambda>j g'. g'[i := (g' ! i)[j := True]]) js g) is g1 ! k ! m
           = (g1 ! k ! m \<or> (k \<in> set is \<and> m \<in> set js))"
    by (rule Cons.IH) (use Cons.prems len row in auto)
  from IH len row cell show ?case by (auto simp: step)
qed

lemma markRows_shape:
  assumes "\<forall>i\<in>set is. i < length g" and "k < length g"
  shows "length (fold (\<lambda>i g. fold (\<lambda>j g'. g'[i := (g' ! i)[j := True]]) js g) is g) = length g \<and>
         length (fold (\<lambda>i g. fold (\<lambda>j g'. g'[i := (g' ! i)[j := True]]) js g) is g ! k) = length (g ! k)"
  using assms
proof (induction "is" arbitrary: g)
  case Nil
  show ?case by simp
next
  case (Cons i "is")
  define g1 where "g1 = g[i := fold (\<lambda>j r. r[j := True]) js (g ! i)]"
  have i: "i < length g" using Cons.prems by simp
  have step: "fold (\<lambda>j g'. g'[i := (g' ! i)[j := True]]) js g = g1"
    unfolding g1_def using i by (rule markCells_row)
  have len: "length g1 = length g" by (simp add: g1_def)
  have row: "length (g1 ! k) = length (g ! k)"
    using Cons.prems(2) by (cases "k = i") (simp_all add: g1_def markRow_length)
  have IH: "length (fold (\<lambda>i g. fold (\<lambda>j g'. g'[i := (g' ! i)[j := True]]) js g) is g1) = length g1 \<and>
         length (fold (\<lambda>i g. fold (\<lambda>j g'. g'[i := (g' ! i)[j := True]]) js g) is g1 ! k) = length (g1 ! k)"
    by (rule Cons.IH) (use Cons.prems len in auto)
  from IH len row show ?case by (auto simp: step)
qed

subsection \<open>Sorting\<close>

lemma set_insertBy: "set (insertBy cmp x ys) = insert x (set ys)"
  by (induction ys) auto

lemma set_sortBy: "set (sortBy cmp xs) = set xs"
  by (induction xs) (auto simp: sortBy_def set_insertBy)

lemma distinct_map_insertBy:
  "distinct (map f (insertBy cmp x ys)) \<longleftrightarrow> f x \<notin> f ` set ys \<and> distinct (map f ys)"
  by (induction ys) (auto simp: set_insertBy)

lemma distinct_map_sortBy: "distinct (map f (sortBy cmp xs)) \<longleftrightarrow> distinct (map f xs)"
  by (induction xs) (auto simp: sortBy_def distinct_map_insertBy set_insertBy set_sortBy[unfolded sortBy_def])

subsection \<open>Rules for the packing loops\<close>

lemma findPlacementForOptions_Some:
  "findPlacementForOptions opt grid options = Some (option, position) \<Longrightarrow>
   option \<in> set options \<and>
   findBestPosition opt grid (oo_length option) (oo_width option) = Some position"
  by (induction options) (auto split: option.splits)

lemma placeUnits_invariant:
  assumes "I st"
    and "\<And>st option position.
           I st \<Longrightarrow> pk_layerWeightBase st + w \<le> mw + EPSILON \<Longrightarrow> option \<in> set sortedOptions \<Longrightarrow>
           findBestPosition opt (pk_grid st) (oo_length option) (oo_width option) = Some position \<Longrightarrow>
           I (placeUnit cand w option position st)"
  shows "I (placeUnits opt mw cand sortedOptions w remaining st)"
  using assms
proof (induction opt mw cand sortedOptions w remaining st rule: placeUnits.induct)
  case (1 opt mw cand sortedOptions w remaining st)
  show ?case
  proof (cases "0 < remaining \<and> \<not> pk_layerWeightBase st + w > mw + EPSILON")
    case False
    with "1.prems"(1) show ?thesis by (subst placeUnits.simps) auto
  next
    case True
    show ?thesis
    proof (cases "findPlacementForOptions opt (pk_grid st) sortedOptions")
      case None
      with True "1.prems"(1) show ?thesis by (subst placeUnits.simps) auto
    next
      case (Some r)
      obtain option position where r: "r = (option, position)" by (cases r) auto
      from Some r have f: "option \<in> set sortedOptions"
        "findBestPosition opt (pk_grid st) (oo_length option) (oo_width option) = Some position"
        using findPlacementForOptions_Some by blast+
      have I': "I (placeUnit cand w option position st)"
        using "1.prems"(1) True f by (intro "1.prems"(2)) auto
      have "I (placeUnits opt mw cand sortedOptions w (remaining - 1) (placeUnit cand w option position st))"
        using True Some r I' "1.prems"(2) by (intro "1.IH"[of r option position]) auto
      with True Some r show ?thesis by (subst placeUnits.simps) auto
    qed
  qed
qed

lemma packing_invariant:
  assumes "I st0"
    and "\<And>st cand option position.
           I st \<Longrightarrow> cand \<in> set queue \<Longrightarrow> 0 < toBaseWeight opt (lq_weight cand) \<Longrightarrow>
           pk_layerWeightBase st + toBaseWeight opt (lq_weight cand) \<le> mw + EPSILON \<Longrightarrow>
           option \<in> set (lq_orientationOptions cand) \<Longrightarrow>
           findBestPosition opt (pk_grid st) (oo_length option) (oo_width option) = Some position \<Longrightarrow>
           I (placeUnit cand (toBaseWeight opt (lq_weight cand)) option position st)"
  shows "I (fold (packCandidate opt mw) queue st0)"
  using assms
proof (induction queue arbitrary: st0)
  case Nil
  then show ?case by simp
next
  case (Cons cand queue)
  have "I (packCandidate opt mw cand st0)"
  proof (cases "toBaseWeight opt (lq_weight cand) \<le> 0")
    case True
    with Cons.prems(1) show ?thesis by (simp add: packCandidate_def)
  next
    case False
    have "I (placeUnits opt mw cand
               (sortBy (\<lambda>a b. oo_footprintArea b - oo_footprintArea a) (lq_orientationOptions cand))
               (toBaseWeight opt (lq_weight cand)) (lq_remaining cand) st0)"
      using Cons.prems(1)
    proof (rule placeUnits_invariant)
      fix st option position
      assume "I st" "pk_layerWeightBase st + toBaseWeight opt (lq_weight cand) \<le> mw + EPSILON"
        "option \<in> set (sortBy (\<lambda>a b. oo_footprintArea b - oo_footprintArea a) (lq_orientationOptions cand))"
        "findBestPosition opt (pk_grid st) (oo_length option) (oo_width option) = Some position"
      with False show "I (placeUnit cand (toBaseWeight opt (lq_weight cand)) option position st)"
        by (intro Cons.prems(2)) (auto simp: set_sortBy)
    qed
    with False show ?thesis by (simp add: packCandidate_def)
  qed
  then have "I (fold (packCandidate opt mw) queue (packCandidate opt mw cand st0))"
    by (rule Cons.IH) (use Cons.prems(2) in auto)
  then show ?case by simp
qed

lemma set_map_filter_iff: "y \<in> set (List.map_filter f xs) \<longleftrightarrow> (\<exists>x\<in>set xs. f x = Some y)"
  by (force simp: List.map_filter_def)

lemma layerQueue_member:
  assumes "cand \<in> set (layerQueue inventory h)"
  shows "\<exists>item\<in>set inventory.
           0 < pi_remaining item \<and> lq_sku cand = pi_sku item \<and> lq_weight cand = pi_weight item \<and>
           lq_remaining cand = pi_remaining item \<and>
           lq_orientationOptions cand =
             filter (\<lambda>option. \<bar>oo_height option - h\<bar> \<le> HEIGHT_TOLERANCE) (pi_orientations item)"
proof -
  from assms obtain item where i: "item \<in> set inventory" "0 < pi_remaining item"
    and q: "toQueueItem h item = Some cand"
    by (auto simp: layerQueue_def set_sortBy set_map_filter_iff)
  from q have "lq_sku cand = pi_sku item \<and> lq_weight cand = pi_weight item \<and>
           lq_remaining cand = pi_remaining item \<and>
           lq_orientationOptions cand =
             filter (\<lambda>option. \<bar>oo_height option - h\<bar> \<le> HEIGHT_TOLERANCE) (pi_orientations item)"
    by (auto simp: toQueueItem_def split: list.splits)
  with i show ?thesis by blast
qed

lemma packLayerForHeight_invariant:
  assumes run: "packLayerForHeight opt inventory h mh mw = Some c"
    and init: "I \<lparr> pk_grid = createGrid opt, pk_placedItems = [], pk_usage = [],
                   pk_areaUsed = 0, pk_layerWeightInput = 0, pk_layerWeightBase = 0 \<rparr>"
    and step: "\<And>st cand option position.
           I st \<Longrightarrow> cand \<in> set (layerQueue inventory h) \<Longrightarrow>
           0 < toBaseWeight opt (lq_weight cand) \<Longrightarrow>
           pk_layerWeightBase st + toBaseWeight opt (lq_weight cand) \<le> mw + EPSILON \<Longrightarrow>
           option \<in> set (lq_orientationOptions cand) \<Longrightarrow>
           findBestPosition opt (pk_grid st) (oo_length option) (oo_width option) = Some position \<Longrightarrow>
           I (placeUnit cand (toBaseWeight opt (lq_weight cand)) option position st)"
  shows "\<exists>st. I st \<and> pk_placedItems st \<noteq> [] \<and>
           ly_items (lc_layer c) = pk_placedItems st \<and> ly_height (lc_layer c) = h \<and>
           ly_weight (lc_layer c) = pk_layerWeightInput st \<and>
           lc_usage c = pk_usage st \<and> lc_weightBase c = pk_layerWeightBase st \<and>
           lc_areaUsed c = pk_areaUsed st"
proof -
  define st where "st = fold (packCandidate opt mw) (layerQueue inventory h)
      \<lparr> pk_grid = createGrid opt, pk_placedItems = [], pk_usage = [],
        pk_areaUsed = 0, pk_layerWeightInput = 0, pk_layerWeightBase = 0 \<rparr>"
  have "I st" unfolding st_def using init step by (rule packing_invariant)
  moreover from run have "pk_placedItems st \<noteq> [] \<and>
           ly_items (lc_layer c) = pk_placedItems st \<and> ly_height (lc_layer c) = h \<and>
           ly_weight (lc_layer c) = pk_layerWeightInput st \<and>
           lc_usage c = pk_usage st \<and> lc_weightBase c = pk_layerWeightBase st \<and>
           lc_areaUsed c = pk_areaUsed st"
    by (auto simp: packLayerForHeight_def Let_def st_def split: if_splits)
  ultimately show ?thesis by blast
qed

subsection \<open>Positions and the grid invariant\<close>

lemma less_nat_ceiling: "i < nat \<lceil>r::real\<rceil> \<longleftrightarrow> real i < r"
  by (simp add: zless_nat_eq_int_zless less_ceiling_iff)

lemma find_Some_member: "List.find P xs = Some x \<Longrightarrow> x \<in> set xs \<and> P x"
  by (metis find_Some_iff nth_mem)

lemma scanRange_iff: "x \<in> set (scanRange b) \<longleftrightarrow> real x \<le> b"
proof (cases "b < 0")
  case True
  then show ?thesis by (simp add: scanRange_def)
next
  case False
  then have "x \<le> nat \<lfloor>b\<rfloor> \<longleftrightarrow> int x \<le> \<lfloor>b\<rfloor>" by (simp add: le_nat_iff)
  also have "\<dots> \<longleftrightarrow> real x \<le> b" by (simp add: le_floor_iff)
  finally have "x \<le> nat \<lfloor>b\<rfloor> \<longleftrightarrow> real x \<le> b" .
  moreover have "x \<in> set (scanRange b) \<longleftrightarrow> x \<le> nat \<lfloor>b\<rfloor>"
    using False by (auto simp: scanRange_def)
  ultimately show ?thesis by simp
qed

lemma findPosition_Some:
  assumes "findPosition opt grid len wid = Some (x, y)"
  shows "canPlaceAt grid x y len wid \<and> real x + len \<le> ps_length (palletSize opt)
         \<and> real y + wid \<le> ps_width (palletSize opt)"
proof -
  from assms have f: "List.find (\<lambda>(x, y). canPlaceAt grid x y len wid)
             (List.product (scanRange (ps_length (palletSize opt) - len))
                           (scanRange (ps_width (palletSize opt) - wid))) = Some (x, y)"
    by (auto simp: findPosition_def split: if_splits)
  then have "(x, y) \<in> set (List.product (scanRange (ps_length (palletSize opt) - len))
                           (scanRange (ps_width (palletSize opt) - wid)))"
    and "canPlaceAt grid x y len wid"
    using find_Some_member[OF f] by auto
  then show ?thesis by (auto simp: scanRange_iff)
qed

lemma findBestPosition_Some:
  assumes "findBestPosition opt grid len wid = Some position"
  shows "canPlaceAt grid (pos_x position) (pos_y position)
           (if pos_rotated position then wid else len) (if pos_rotated position then len else wid) \<and>
         real (pos_x position) + (if pos_rotated position then wid else len)
           \<le> ps_length (palletSize opt) \<and>
         real (pos_y position) + (if pos_rotated position then len else wid)
           \<le> ps_width (palletSize opt)"
proof (cases "findPosition opt grid len wid")
  case (Some xy)
  obtain x y where xy: "xy = (x, y)" by (cases xy) auto
  from assms Some xy have "position = \<lparr> pos_x = x, pos_y = y, pos_rotated = False \<rparr>"
    by (simp add: findBestPosition_def)
  with findPosition_Some[OF Some[unfolded xy]] show ?thesis by simp
next
  case None
  with assms obtain x y where s: "findPosition opt grid wid len = Some (x, y)"
    and p: "position = \<lparr> pos_x = x, pos_y = y, pos_rotated = True \<rparr>"
    by (auto simp: findBestPosition_def split: option.splits)
  with findPosition_Some[OF s] show ?thesis by simp
qed

lemma gridInvariant_init:
  "gridInvariant opt \<lparr> pk_grid = createGrid opt, pk_placedItems = [], pk_usage = [],
                        pk_areaUsed = 0, pk_layerWeightInput = 0, pk_layerWeightBase = 0 \<rparr>"
  by (simp add: gridInvariant_def createGrid_def)

lemma gridInvariant_placeUnit:
  assumes pos: "0 < ps_length (palletSize opt)" "0 < ps_width (palletSize opt)"
    and inv: "gridInvariant opt st"
    and found: "findBestPosition opt (pk_grid st) (oo_length option) (oo_width option) = Some position"
  shows "gridInvariant opt (placeUnit cand w option position st)"
proof -
  define L W where "L = ps_length (palletSize opt)" and "W = ps_width (palletSize opt)"
  define x y where "x = pos_x position" and "y = pos_y position"
  define pl pw where "pl = (if pos_rotated position then oo_width option else oo_length option)"
    and "pw = (if pos_rotated position then oo_length option else oo_width option)"
  define g where "g = pk_grid st"
  define placed where "placed = \<lparr> pl_sku = lq_sku cand, pl_quantity = 1,
                     pl_x = real x, pl_y = real y, pl_width = pw, pl_length = pl,
                     pl_rotated = pos_rotated position \<rparr>"
  define g' where "g' = markGridOccupied g x y pl pw"
  have items': "pk_placedItems (placeUnit cand w option position st) = pk_placedItems st @ [placed]"
    and grid': "pk_grid (placeUnit cand w option position st) = g'"
    by (simp_all add: placeUnit_def Let_def placed_def g'_def g_def x_def y_def pl_def pw_def)
  from findBestPosition_Some[OF found]
  have can: "canPlaceAt g x y pl pw" and bx: "real x + pl \<le> L" and bY: "real y + pw \<le> W"
    by (simp_all add: g_def x_def y_def pl_def pw_def L_def W_def)
  have glen: "length g = nat \<lceil>L\<rceil>" and rows: "\<And>row. row \<in> set g \<Longrightarrow> length row = nat \<lceil>W\<rceil>"
    using inv by (simp_all add: gridInvariant_def g_def L_def W_def)
  have gpos: "0 < length g" using pos(1) glen by (simp add: L_def)
  have rowk: "length (g ! k) = nat \<lceil>W\<rceil>" if "k < length g" for k
    using rows that by simp
  define endX endY where "endX = cellEndX g x pl" and "endY = cellEndY g y pw"
  have endX: "endX = nat \<lceil>real x + pl\<rceil>"
  proof -
    have "\<lceil>real x + pl\<rceil> \<le> \<lceil>L\<rceil>" using bx by (rule ceiling_mono)
    then show ?thesis by (simp add: endX_def cellEndX_def glen)
  qed
  have endY: "endY = nat \<lceil>real y + pw\<rceil>"
  proof -
    have "\<lceil>real y + pw\<rceil> \<le> \<lceil>W\<rceil>" using bY by (rule ceiling_mono)
    then show ?thesis using gpos by (simp add: endY_def cellEndY_def rowk)
  qed
  have inX: "x \<le> i \<and> i < endX \<longleftrightarrow> real x < real i + 1 \<and> real i < real x + pl" for i
  proof -
    have "i < nat \<lceil>real x + pl\<rceil> \<longleftrightarrow> real i < real x + pl"
      by (simp add: less_nat_ceiling)
    then show ?thesis by (auto simp: endX)
  qed
  have inY: "y \<le> j \<and> j < endY \<longleftrightarrow> real y < real j + 1 \<and> real j < real y + pw" for j
  proof -
    have "j < nat \<lceil>real y + pw\<rceil> \<longleftrightarrow> real j < real y + pw"
      by (simp add: less_nat_ceiling)
    then show ?thesis by (auto simp: endY)
  qed
  have covered: "cellCovered placed i j \<longleftrightarrow> i \<in> set [x..<endX] \<and> j \<in> set [y..<endY]" for i j
    using inX[of i] inY[of j] by (simp add: cellCovered_def placed_def)
  have free: "\<not> g ! i ! j" if "cellCovered placed i j" for i j
    using can that unfolding covered canPlaceAt_def Let_def endX_def[symmetric] endY_def[symmetric]
    by (auto simp: list_all_iff)
  have upper: "\<forall>i\<in>set [x..<endX]. i < length g"
    by (simp add: endX_def cellEndX_def)
  have g'_def2: "g' = fold (\<lambda>i g. fold (\<lambda>j g'. g'[i := (g' ! i)[j := True]]) [y..<endY] g) [x..<endX] g"
    by (simp add: g'_def markGridOccupied_def Let_def endX_def endY_def)
  have shape: "length g' = length g" "\<And>k. k < length g \<Longrightarrow> length (g' ! k) = length (g ! k)"
    using markRows_shape[OF upper, of _ "[y..<endY]"] gpos unfolding g'_def2 by blast+
  have cell: "g' ! k ! m = (g ! k ! m \<or> (k \<in> set [x..<endX] \<and> m \<in> set [y..<endY]))"
    if "k < length g" "m < length (g ! k)" for k m
    using markRows_cell[OF upper that, of "[y..<endY]"] unfolding g'_def2 by blast
  have inGrid: "i < length g \<and> j < length (g ! i)"
    if "withinFootprint opt p" "cellCovered p i j" for p i j
  proof -
    from that have "real i < L" "real j < W"
      by (auto simp: withinFootprint_def cellCovered_def L_def W_def)
    then have "i < nat \<lceil>L\<rceil>" "j < nat \<lceil>W\<rceil>"
      by (simp_all add: less_nat_ceiling)
    then show ?thesis by (simp add: glen rowk)
  qed
  have wf: "withinFootprint opt placed"
    using bx bY by (simp add: withinFootprint_def placed_def L_def W_def)
  have old: "\<forall>p\<in>set (pk_placedItems st).
         withinFootprint opt p \<and> pl_x p \<in> \<nat> \<and> pl_y p \<in> \<nat> \<and>
         (\<forall>i j. cellCovered p i j \<longrightarrow> g ! i ! j)"
    and apart: "sorted_wrt (\<lambda>p q. \<not> footprintsIntersect p q) (pk_placedItems st)"
    using inv by (simp_all add: gridInvariant_def g_def)
  have 1: "length g' = nat \<lceil>L\<rceil>" using shape(1) glen by simp
  have 2: "\<forall>row\<in>set g'. length row = nat \<lceil>W\<rceil>"
    using shape rowk by (auto simp: in_set_conv_nth)
  have 3: "\<forall>p\<in>set (pk_placedItems st @ [placed]).
         withinFootprint opt p \<and> pl_x p \<in> \<nat> \<and> pl_y p \<in> \<nat> \<and>
         (\<forall>i j. cellCovered p i j \<longrightarrow> g' ! i ! j)"
  proof
    fix p assume "p \<in> set (pk_placedItems st @ [placed])"
    then consider "p \<in> set (pk_placedItems st)" | "p = placed" by auto
    then show "withinFootprint opt p \<and> pl_x p \<in> \<nat> \<and> pl_y p \<in> \<nat> \<and>
         (\<forall>i j. cellCovered p i j \<longrightarrow> g' ! i ! j)"
    proof cases
      case 1
      with old have p: "withinFootprint opt p" "pl_x p \<in> \<nat>" "pl_y p \<in> \<nat>"
        "\<And>i j. cellCovered p i j \<Longrightarrow> g ! i ! j" by auto
      have "g' ! i ! j" if "cellCovered p i j" for i j
        using inGrid[OF p(1) that] p(4)[OF that] cell[of i j] by simp
      with p show ?thesis by blast
    next
      case 2
      have "g' ! i ! j" if "cellCovered placed i j" for i j
        using inGrid[OF wf that] that cell[of i j] by (simp add: covered)
      with 2 wf show ?thesis by (simp add: placed_def)
    qed
  qed
  have 4: "\<not> footprintsIntersect p placed" if "p \<in> set (pk_placedItems st)" for p
  proof
    assume i: "footprintsIntersect p placed"
    from old that obtain n m where nm: "pl_x p = real n" "pl_y p = real m"
      and cov: "\<And>i j. cellCovered p i j \<Longrightarrow> g ! i ! j"
      by (auto simp: Nats_def)
    have "cellCovered p (max n x) (max m y)" "cellCovered placed (max n x) (max m y)"
      using i by (auto simp: footprintsIntersect_def cellCovered_def nm placed_def max_def
          split: if_splits)
    with cov free show False by blast
  qed
  have 5: "sorted_wrt (\<lambda>p q. \<not> footprintsIntersect p q) (pk_placedItems st @ [placed])"
    using apart 4 by (simp add: sorted_wrt_append)
  from 1 2 3 5 show ?thesis
    by (simp add: gridInvariant_def items' grid' L_def W_def)
qed

subsection \<open>Inventory and layers through the loops\<close>

lemma consume_consistent:
  "inventoryConsistent opt inventory \<Longrightarrow> inventoryConsistent opt (consume inventory skuId n)"
  by (induction inventory) (auto simp: inventoryConsistent_def)

lemma applyUsage_consistent:
  "inventoryConsistent opt inventory \<Longrightarrow> inventoryConsistent opt (applyUsage usage inventory)"
  unfolding applyUsage_def
  by (induction usage arbitrary: inventory) (auto simp: consume_consistent)

lemma initializeInventoryFrom_consistent:
  "initializeInventoryFrom opt items acc = Inr inventory \<Longrightarrow> inventoryConsistent opt acc \<Longrightarrow>
   inventoryConsistent opt inventory"
proof (induction items arbitrary: acc)
  case Nil
  then show ?case by simp
next
  case (Cons item items)
  show ?case
  proof (cases "oi_quantity item \<le> 0")
    case True
    with Cons show ?thesis by simp
  next
    case False
    with Cons.prems(1) have
      "initializeInventoryFrom opt items
         (acc @ [\<lparr> pi_sku = oi_sku item, pi_unitType = oi_unitType item,
                   pi_remaining = oi_quantity item,
                   pi_orientations = generateOrientationOptions opt (oi_sku item),
                   pi_weight = sku_weight (oi_sku item) \<rparr>]) = Inr inventory"
      by (simp add: Let_def split: if_splits)
    then show ?thesis
      by (rule Cons.IH) (use Cons.prems(2) in \<open>simp add: inventoryConsistent_def\<close>)
  qed
qed

lemma initializeInventory_consistent:
  "initializeInventory opt items = Inr inventory \<Longrightarrow> inventoryConsistent opt inventory"
  unfolding initializeInventory_def
  by (erule initializeInventoryFrom_consistent) (simp add: inventoryConsistent_def)

lemma addHeight_bound:
  "\<forall>(k, hv)\<in>set heightMap. hv \<le> mh + HEIGHT_TOLERANCE \<Longrightarrow>
   \<forall>(k, hv)\<in>set (fold (addHeight mh) options heightMap). hv \<le> mh + HEIGHT_TOLERANCE"
proof (induction options arbitrary: heightMap)
  case Nil
  then show ?case by simp
next
  case (Cons a options)
  have "\<forall>(k, hv)\<in>set (addHeight mh a heightMap). hv \<le> mh + HEIGHT_TOLERANCE"
    using Cons.prems by (auto simp: addHeight_def Let_def)
  from Cons.IH[OF this] show ?case by simp
qed

lemma collectHeights_bound:
  assumes "(k, hv) \<in> set (collectHeights inventory mh)"
  shows "hv \<le> mh + HEIGHT_TOLERANCE"
proof -
  have "\<forall>(k, hv)\<in>set heightMap. hv \<le> mh + HEIGHT_TOLERANCE \<Longrightarrow>
        \<forall>(k, hv)\<in>set (fold (\<lambda>item heightMap.
             if pi_remaining item \<le> 0 then heightMap
             else fold (addHeight mh) (pi_orientations item) heightMap) inventory heightMap).
          hv \<le> mh + HEIGHT_TOLERANCE" for heightMap
  proof (induction inventory arbitrary: heightMap)
    case Nil
    then show ?case by simp
  next
    case (Cons item inventory)
    show ?case
      using Cons.IH[OF addHeight_bound[OF Cons.prems], of "pi_orientations item"]
        Cons.IH[OF Cons.prems]
      by simp
  qed
  from this[of "[]"] assms show ?thesis by (auto simp: collectHeights_def)
qed

lemma pickBestCandidate_Some:
  "pickBestCandidate candidates = Some c \<Longrightarrow> c \<in> set candidates"
proof -
  assume "pickBestCandidate candidates = Some c"
  then have "c \<in> set (sortBy compareCandidates candidates)"
    by (auto simp: pickBestCandidate_def split: list.splits)
  then show ?thesis by (simp add: set_sortBy)
qed

lemma selectNextLayer_Some:
  assumes "selectNextLayer opt inventory mh mw = Some c"
  shows "EPSILON < mw \<and> c \<in> set (layerCandidates opt inventory mh mw) \<and>
         (\<exists>hv. hv \<le> mh + HEIGHT_TOLERANCE \<and> packLayerForHeight opt inventory hv mh mw = Some c)"
proof -
  from assms have mw: "EPSILON < mw"
    by (auto simp: selectNextLayer_def split: if_splits)
  from assms have "c \<in> set (layerCandidates opt inventory mh mw)"
    by (auto simp: selectNextLayer_def Let_def split: if_splits dest!: pickBestCandidate_Some)
  moreover from this obtain k hv where "(k, hv) \<in> set (collectHeights inventory mh)"
    "packLayerForHeight opt inventory hv mh mw = Some c"
    by (auto simp: layerCandidates_def set_map_filter_iff)
  ultimately show ?thesis using mw collectHeights_bound by blast
qed

lemma buildPallet_layers:
  assumes run: "buildPallet opt inventory palletId = Some (pallet, inventory')"
    and ok: "inventoryConsistent opt inventory"
    and layer: "\<And>inv0 hv mh mw c. inventoryConsistent opt inv0 \<Longrightarrow>
                 packLayerForHeight opt inv0 hv mh mw = Some c \<Longrightarrow> P (lc_layer c)"
  shows "inventoryConsistent opt inventory' \<and> (\<forall>layer\<in>set (pal_layers pallet). P layer)"
proof -
  from run obtain h wi wb where
    l: "buildPalletLoop opt inventory [] 0 0 0 = Some (pal_layers pallet, h, wi, wb, inventory')"
    by (auto simp: buildPallet_def bind_eq_Some_conv)
  define I0 where "I0 = (\<lambda>(i::PackingItem list) (ls::Layer list) (ch::real) (cwi::real)
      (cwb::real). inventoryConsistent opt i \<and> (\<forall>layer\<in>set ls. P layer))"
  have "I0 inventory' (pal_layers pallet) h wi wb \<and>
        (\<not> hasRemaining inventory' \<or> maxHeight opt - h \<le> HEIGHT_TOLERANCE
          \<or> maxWeightBase opt - wb \<le> EPSILON
          \<or> selectNextLayer opt inventory' (maxHeight opt - h) (maxWeightBase opt - wb) = None)"
  proof (rule buildPalletLoop_invariant[OF l])
    show "I0 inventory [] 0 0 0" using ok by (simp add: I0_def)
  next
    fix i ls ch cwi cwb c
    assume "I0 i ls ch cwi cwb"
      and "selectNextLayer opt i (maxHeight opt - ch) (maxWeightBase opt - cwb) = Some c"
    then have i: "inventoryConsistent opt i" and ls: "\<forall>layer\<in>set ls. P layer"
      and "\<exists>hv. packLayerForHeight opt i hv (maxHeight opt - ch) (maxWeightBase opt - cwb) = Some c"
      using selectNextLayer_Some[of opt i "maxHeight opt - ch" "maxWeightBase opt - cwb" c]
      by (auto simp: I0_def)
    then obtain hv where
      "packLayerForHeight opt i hv (maxHeight opt - ch) (maxWeightBase opt - cwb) = Some c"
      by blast
    with i have "P (lc_layer c)" by (rule layer)
    with i ls show "I0 (applyUsage (lc_usage c) i) (ls @ [lc_layer c]) (ch + ly_height (lc_layer c))
          (cwi + ly_weight (lc_layer c)) (cwb + lc_weightBase c)"
      by (simp add: I0_def applyUsage_consistent)
  qed
  then show ?thesis by (simp add: I0_def)
qed

lemma optimize_layers:
  assumes run: "optimize opt items = Some (Inr pallets)"
    and layer: "\<And>inv0 hv mh mw c. inventoryConsistent opt inv0 \<Longrightarrow>
                 packLayerForHeight opt inv0 hv mh mw = Some c \<Longrightarrow> P (lc_layer c)"
  shows "\<forall>pallet\<in>set pallets. \<forall>layer\<in>set (pal_layers pallet). P layer"
proof (rule optimize_pallets[OF run, where R = "inventoryConsistent opt"])
  show "inventoryConsistent opt i" if "initializeInventory opt items = Inr i" for i
    using that by (rule initializeInventory_consistent)
next
  fix i pid pallet i'
  assume "inventoryConsistent opt i" "buildPallet opt i pid = Some (pallet, i')"
  then show "(\<forall>layer\<in>set (pal_layers pallet). P layer) \<and> inventoryConsistent opt i'"
    using buildPallet_layers[of opt i pid pallet i' P] layer by blast
qed

lemma packLayerForHeight_gridInvariant:
  assumes "0 < ps_length (palletSize opt)" "0 < ps_width (palletSize opt)"
    and "packLayerForHeight opt inventory h mh mw = Some c"
  shows "(\<forall>p\<in>set (ly_items (lc_layer c)). withinFootprint opt p) \<and>
         sorted_wrt (\<lambda>p q. \<not> footprintsIntersect p q) (ly_items (lc_layer c))"
proof -
  have "\<exists>st. gridInvariant opt st \<and> pk_placedItems st \<noteq> [] \<and>
           ly_items (lc_layer c) = pk_placedItems st \<and> ly_height (lc_layer c) = h \<and>
           ly_weight (lc_layer c) = pk_layerWeightInput st \<and>
           lc_usage c = pk_usage st \<and> lc_weightBase c = pk_layerWeightBase st \<and>
           lc_areaUsed c = pk_areaUsed st"
    using assms(3) gridInvariant_init
    by (rule packLayerForHeight_invariant) (rule gridInvariant_placeUnit[OF assms(1,2)])
  then show ?thesis by (auto simp: gridInvariant_def)
qed

subsection \<open>Heights and weights of a packed layer\<close>

lemma packLayerForHeight_homogeneous:
  assumes ok: "inventoryConsistent opt inventory"
    and run: "packLayerForHeight opt inventory h mh mw = Some c"
  shows "heightHomogeneous opt (lc_layer c)"
proof -
  define I0 where "I0 = (\<lambda>st :: packing. \<forall>p\<in>set (pk_placedItems st).
      \<exists>option\<in>set (generateOrientationOptions opt (pl_sku p)).
        \<bar>oo_height option - h\<bar> \<le> HEIGHT_TOLERANCE \<and> placedWith option p)"
  have "\<exists>st. I0 st \<and> pk_placedItems st \<noteq> [] \<and>
           ly_items (lc_layer c) = pk_placedItems st \<and> ly_height (lc_layer c) = h \<and>
           ly_weight (lc_layer c) = pk_layerWeightInput st \<and>
           lc_usage c = pk_usage st \<and> lc_weightBase c = pk_layerWeightBase st \<and>
           lc_areaUsed c = pk_areaUsed st"
    using run
  proof (rule packLayerForHeight_invariant)
    show "I0 \<lparr> pk_grid = createGrid opt, pk_placedItems = [], pk_usage = [],
                   pk_areaUsed = 0, pk_layerWeightInput = 0, pk_layerWeightBase = 0 \<rparr>"
      by (simp add: I0_def)
  next
    fix st cand option position
    assume I: "I0 st" and cand: "cand \<in> set (layerQueue inventory h)"
      and option: "option \<in> set (lq_orientationOptions cand)"
    from layerQueue_member[OF cand] obtain item where item: "item \<in> set inventory"
      "lq_sku cand = pi_sku item"
      "lq_orientationOptions cand =
         filter (\<lambda>option. \<bar>oo_height option - h\<bar> \<le> HEIGHT_TOLERANCE) (pi_orientations item)"
      by blast
    with ok option have o: "option \<in> set (generateOrientationOptions opt (lq_sku cand))"
      "\<bar>oo_height option - h\<bar> \<le> HEIGHT_TOLERANCE"
      by (auto simp: inventoryConsistent_def)
    show "I0 (placeUnit cand (toBaseWeight opt (lq_weight cand)) option position st)"
      using I o by (auto simp: I0_def placeUnit_def Let_def placedWith_def)
  qed
  then show ?thesis
    by (auto simp: I0_def heightHomogeneous_def list_all_iff list_ex_iff)
qed

lemma packLayerForHeight_weights:
  assumes ok: "inventoryConsistent opt inventory"
    and mw: "0 \<le> mw + EPSILON"
    and run: "packLayerForHeight opt inventory h mh mw = Some c"
  shows "ly_height (lc_layer c) = h \<and>
         lc_weightBase c = layerWeightLbs opt (lc_layer c) \<and>
         lc_weightBase c \<le> mw + EPSILON \<and>
         ly_weight (lc_layer c) = sum_list (map (\<lambda>p. sku_weight (pl_sku p)) (ly_items (lc_layer c))) \<and>
         (\<forall>p\<in>set (ly_items (lc_layer c)). 0 < toBaseWeight opt (sku_weight (pl_sku p)))"
proof -
  define I0 where "I0 = (\<lambda>st :: packing.
      pk_layerWeightBase st
        = sum_list (map (\<lambda>p. toBaseWeight opt (sku_weight (pl_sku p))) (pk_placedItems st)) \<and>
      pk_layerWeightBase st \<le> mw + EPSILON \<and>
      pk_layerWeightInput st = sum_list (map (\<lambda>p. sku_weight (pl_sku p)) (pk_placedItems st)) \<and>
      (\<forall>p\<in>set (pk_placedItems st). 0 < toBaseWeight opt (sku_weight (pl_sku p))))"
  have "\<exists>st. I0 st \<and> pk_placedItems st \<noteq> [] \<and>
           ly_items (lc_layer c) = pk_placedItems st \<and> ly_height (lc_layer c) = h \<and>
           ly_weight (lc_layer c) = pk_layerWeightInput st \<and>
           lc_usage c = pk_usage st \<and> lc_weightBase c = pk_layerWeightBase st \<and>
           lc_areaUsed c = pk_areaUsed st"
    using run
  proof (rule packLayerForHeight_invariant)
    show "I0 \<lparr> pk_grid = createGrid opt, pk_placedItems = [], pk_usage = [],
                   pk_areaUsed = 0, pk_layerWeightInput = 0, pk_layerWeightBase = 0 \<rparr>"
      using mw by (simp add: I0_def)
  next
    fix st cand option position
    assume I: "I0 st" and cand: "cand \<in> set (layerQueue inventory h)"
      and w: "0 < toBaseWeight opt (lq_weight cand)"
        "pk_layerWeightBase st + toBaseWeight opt (lq_weight cand) \<le> mw + EPSILON"
    from layerQueue_member[OF cand] obtain item where item: "item \<in> set inventory"
      "lq_sku cand = pi_sku item" "lq_weight cand = pi_weight item"
      by blast
    with ok have "lq_weight cand = sku_weight (lq_sku cand)"
      by (auto simp: inventoryConsistent_def)
    with I w show "I0 (placeUnit cand (toBaseWeight opt (lq_weight cand)) option position st)"
      by (auto simp: I0_def placeUnit_def Let_def)
  qed
  then show ?thesis by (auto simp: I0_def layerWeightLbs_def)
qed

lemma buildPallet_bounds:
  assumes h0: "0 < maxHeight opt" and w0: "0 < maxWeightBase opt"
    and ok: "inventoryConsistent opt inventory"
    and run: "buildPallet opt inventory palletId = Some (pallet, inventory')"
  shows "inventoryConsistent opt inventory' \<and>
         pal_totalHeight pallet = sum_list (map ly_height (pal_layers pallet)) \<and>
         pal_totalHeight pallet \<le> maxHeight opt + HEIGHT_TOLERANCE \<and>
         palletWeightLbs opt pallet \<le> maxWeightBase opt + EPSILON \<and>
         toBaseWeight opt (pal_totalWeight pallet) = palletWeightLbs opt pallet"
proof -
  from run obtain wb where
    l: "buildPalletLoop opt inventory [] 0 0 0 =
          Some (pal_layers pallet, pal_totalHeight pallet, pal_totalWeight pallet, wb, inventory')"
    by (auto simp: buildPallet_def bind_eq_Some_conv)
  define I0 where "I0 = (\<lambda>(i::PackingItem list) (ls::Layer list) (ch::real) (cwi::real)
      (cwb::real). inventoryConsistent opt i \<and>
        ch = sum_list (map ly_height ls) \<and> ch \<le> maxHeight opt + HEIGHT_TOLERANCE \<and>
        cwb = sum_list (map (layerWeightLbs opt) ls) \<and> cwb \<le> maxWeightBase opt + EPSILON \<and>
        toBaseWeight opt cwi = cwb)"
  have lin: "toBaseWeight opt (a + b) = toBaseWeight opt a + toBaseWeight opt b" for a b
    by (simp add: toBaseWeight_def algebra_simps)
  have lin_sum: "toBaseWeight opt (sum_list (map f xs)) = sum_list (map (\<lambda>x. toBaseWeight opt (f x)) xs)"
    for f :: "PlacedItem \<Rightarrow> real" and xs
    by (induction xs) (simp_all add: lin, simp add: toBaseWeight_def)
  have "I0 inventory' (pal_layers pallet) (pal_totalHeight pallet) (pal_totalWeight pallet) wb \<and>
        (\<not> hasRemaining inventory' \<or> maxHeight opt - pal_totalHeight pallet \<le> HEIGHT_TOLERANCE
          \<or> maxWeightBase opt - wb \<le> EPSILON
          \<or> selectNextLayer opt inventory' (maxHeight opt - pal_totalHeight pallet)
               (maxWeightBase opt - wb) = None)"
  proof (rule buildPalletLoop_invariant[OF l])
    show "I0 inventory [] 0 0 0"
      using ok h0 w0 by (simp add: I0_def HEIGHT_TOLERANCE_def EPSILON_def toBaseWeight_def)
  next
    fix i ls ch cwi cwb c
    assume I: "I0 i ls ch cwi cwb"
      and sel: "selectNextLayer opt i (maxHeight opt - ch) (maxWeightBase opt - cwb) = Some c"
    from selectNextLayer_Some[OF sel] obtain hv where
      mw: "EPSILON < maxWeightBase opt - cwb" and hv: "hv \<le> maxHeight opt - ch + HEIGHT_TOLERANCE"
      and p: "packLayerForHeight opt i hv (maxHeight opt - ch) (maxWeightBase opt - cwb) = Some c"
      by blast
    from I have i: "inventoryConsistent opt i" by (simp add: I0_def)
    have "0 \<le> maxWeightBase opt - cwb + EPSILON" using mw by (simp add: EPSILON_def)
    from packLayerForHeight_weights[OF i this p]
    have f: "ly_height (lc_layer c) = hv" "lc_weightBase c = layerWeightLbs opt (lc_layer c)"
      "lc_weightBase c \<le> maxWeightBase opt - cwb + EPSILON"
      "ly_weight (lc_layer c) = sum_list (map (\<lambda>p. sku_weight (pl_sku p)) (ly_items (lc_layer c)))"
      by blast+
    have "toBaseWeight opt (ly_weight (lc_layer c)) = lc_weightBase c"
      by (simp add: f(2,4) lin_sum layerWeightLbs_def)
    with I f hv show "I0 (applyUsage (lc_usage c) i) (ls @ [lc_layer c]) (ch + ly_height (lc_layer c))
          (cwi + ly_weight (lc_layer c)) (cwb + lc_weightBase c)"
      by (simp add: I0_def applyUsage_consistent lin)
  qed
  then show ?thesis by (simp add: I0_def palletWeightLbs_def)
qed

subsection \<open>Layer selection\<close>







subsection \<open>Consuming inventory\<close>

lemma consume_skus: "map pi_sku (consume inventory skuId n) = map pi_sku inventory"
  by (induction inventory) auto

lemma consume_length: "length (consume inventory skuId n) = length inventory"
  by (induction inventory) auto

lemma consume_other:
  "j < length inventory \<Longrightarrow> sku_id (pi_sku (inventory ! j)) \<noteq> skuId \<Longrightarrow>
   consume inventory skuId n ! j = inventory ! j"
proof (induction inventory arbitrary: j)
  case Nil
  then show ?case by simp
next
  case (Cons item inventory)
  then show ?case by (cases j) auto
qed

lemma consume_shadowed:
  "j < length inventory \<Longrightarrow> k < j \<Longrightarrow>
   sku_id (pi_sku (inventory ! k)) = sku_id (pi_sku (inventory ! j)) \<Longrightarrow>
   consume inventory skuId n ! j = inventory ! j"
proof (induction inventory arbitrary: j k)
  case Nil
  then show ?case by simp
next
  case (Cons item inventory)
  from Cons.prems obtain j' where j: "j = Suc j'" by (cases j) auto
  show ?case
  proof (cases "sku_id (pi_sku item) = skuId")
    case True
    then show ?thesis by (simp add: j)
  next
    case False
    show ?thesis
    proof (cases k)
      case 0
      with Cons.prems False j have "sku_id (pi_sku (inventory ! j')) \<noteq> skuId" by simp
      with Cons.prems j False show ?thesis by (simp add: consume_other)
    next
      case (Suc k')
      with Cons.prems j have "consume inventory skuId n ! j' = inventory ! j'"
        by (intro Cons.IH[of j' k']) auto
      with False j show ?thesis by simp
    qed
  qed
qed

lemma consume_first:
  "distinct (map (\<lambda>item. sku_id (pi_sku item)) inventory) \<Longrightarrow> j < length inventory \<Longrightarrow>
   consume inventory skuId n ! j =
     (if sku_id (pi_sku (inventory ! j)) = skuId
      then (inventory ! j) \<lparr> pi_remaining := max 0 (pi_remaining (inventory ! j) - real n) \<rparr>
      else inventory ! j)"
proof (induction inventory arbitrary: j)
  case Nil
  then show ?case by simp
next
  case (Cons item inventory)
  show ?case
  proof (cases j)
    case 0
    then show ?thesis by simp
  next
    case (Suc j')
    show ?thesis
    proof (cases "sku_id (pi_sku item) = skuId")
      case True
      with Cons.prems Suc have "sku_id (pi_sku (inventory ! j')) \<noteq> skuId"
        by (auto simp: image_iff) (metis nth_mem)
      with True Suc show ?thesis by simp
    next
      case False
      with Cons.prems Suc Cons.IH[of j'] show ?thesis by simp
    qed
  qed
qed

lemma applyUsage_skus: "map pi_sku (applyUsage usage inventory) = map pi_sku inventory"
  unfolding applyUsage_def
  by (induction usage arbitrary: inventory) (auto simp: consume_skus)

lemma applyUsage_length: "length (applyUsage usage inventory) = length inventory"
  using applyUsage_skus[of usage inventory] by (metis length_map)

lemma applyUsage_shadowed:
  assumes "j < length inventory" "k < j"
    and "sku_id (pi_sku (inventory ! k)) = sku_id (pi_sku (inventory ! j))"
  shows "applyUsage usage inventory ! j = inventory ! j"
  using assms unfolding applyUsage_def
proof (induction usage arbitrary: inventory)
  case Nil
  then show ?case by simp
next
  case (Cons u usage)
  obtain skuId n where u: "u = (skuId, n)" by (cases u) auto
  have s: "map pi_sku (consume inventory skuId n) = map pi_sku inventory" by (rule consume_skus)
  have nth: "pi_sku (consume inventory skuId n ! m) = pi_sku (inventory ! m)" if "m < length inventory" for m
    using s that by (metis consume_length nth_map)
  have "fold (\<lambda>(skuId, count) inv. consume inv skuId count) usage (consume inventory skuId n) ! j
          = consume inventory skuId n ! j"
    using Cons.prems by (intro Cons.IH) (auto simp: consume_length nth)
  also have "\<dots> = inventory ! j" using Cons.prems by (rule consume_shadowed)
  finally show ?case by (simp add: u)
qed

lemma applyUsage_distinct:
  assumes "distinct (map (\<lambda>item. sku_id (pi_sku item)) inventory)" and "distinct (map fst usage)"
    and "j < length inventory"
  shows "applyUsage usage inventory ! j =
           (case map_of usage (sku_id (pi_sku (inventory ! j))) of
              None \<Rightarrow> inventory ! j
            | Some n \<Rightarrow> (inventory ! j) \<lparr> pi_remaining :=
                          max 0 (pi_remaining (inventory ! j) - real n) \<rparr>)"
  using assms unfolding applyUsage_def
proof (induction usage arbitrary: inventory)
  case Nil
  then show ?case by simp
next
  case (Cons u usage)
  obtain skuId n where u: "u = (skuId, n)" by (cases u) auto
  define inv1 where "inv1 = consume inventory skuId n"
  have s: "map pi_sku inv1 = map pi_sku inventory" unfolding inv1_def by (rule consume_skus)
  have len: "length inv1 = length inventory" unfolding inv1_def by (rule consume_length)
  have ids: "map (\<lambda>item. sku_id (pi_sku item)) inv1 = map (\<lambda>item. sku_id (pi_sku item)) inventory"
    using arg_cong[OF s, of "map sku_id"] by (simp add: comp_def)
  have d1: "distinct (map (\<lambda>item. sku_id (pi_sku item)) inv1)" using Cons.prems(1) ids by simp
  have sku: "pi_sku (inv1 ! j) = pi_sku (inventory ! j)"
    using s Cons.prems(3) len by (metis nth_map)
  have first: "inv1 ! j = (if sku_id (pi_sku (inventory ! j)) = skuId
      then (inventory ! j) \<lparr> pi_remaining := max 0 (pi_remaining (inventory ! j) - real n) \<rparr>
      else inventory ! j)"
    unfolding inv1_def using Cons.prems(1,3) by (rule consume_first)
  have IH: "fold (\<lambda>(skuId, count) inv. consume inv skuId count) usage inv1 ! j =
           (case map_of usage (sku_id (pi_sku (inv1 ! j))) of
              None \<Rightarrow> inv1 ! j
            | Some n \<Rightarrow> (inv1 ! j) \<lparr> pi_remaining := max 0 (pi_remaining (inv1 ! j) - real n) \<rparr>)"
    using d1 Cons.prems(2,3) len by (intro Cons.IH) auto
  have goal: "fold (\<lambda>(skuId, count) inv. consume inv skuId count) (u # usage) inventory
      = fold (\<lambda>(skuId, count) inv. consume inv skuId count) usage inv1"
    by (simp add: u inv1_def)
  show ?case
  proof (cases "sku_id (pi_sku (inventory ! j)) = skuId")
    case True
    with Cons.prems(2) u have "map_of usage (sku_id (pi_sku (inventory ! j))) = None"
      by (auto simp: map_of_eq_None_iff)
    with IH sku first True show ?thesis unfolding goal by (simp add: u split: option.splits)
  next
    case False
    with first have "inv1 ! j = inventory ! j" by simp
    with IH False show ?thesis unfolding goal by (simp add: u split: option.splits)
  qed
qed

subsection \<open>Duplicate SKU ids\<close>

lemma initializeInventoryFrom_Inr:
  "initializeInventoryFrom opt items acc = Inr inventory \<Longrightarrow>
   inventory = acc @ map (packingItemOf opt) (filter (\<lambda>item. 0 < oi_quantity item) items)"
proof (induction items arbitrary: acc)
  case Nil
  then show ?case by simp
next
  case (Cons item items)
  show ?case
  proof (cases "oi_quantity item \<le> 0")
    case True
    with Cons show ?thesis by simp
  next
    case False
    with Cons.prems have
      "initializeInventoryFrom opt items (acc @ [packingItemOf opt item]) = Inr inventory"
      by (simp add: Let_def packingItemOf_def split: if_splits)
    from Cons.IH[OF this] False show ?thesis by simp
  qed
qed

lemma initializeInventory_Inr:
  "initializeInventory opt items = Inr inventory \<Longrightarrow>
   inventory = map (packingItemOf opt) (filter (\<lambda>item. 0 < oi_quantity item) items)"
  unfolding initializeInventory_def by (drule initializeInventoryFrom_Inr) simp

lemma buildPallet_inventory:
  assumes run: "buildPallet opt inventory palletId = Some (pallet, inventory')"
    and init: "J inventory"
    and step: "\<And>i usage. J i \<Longrightarrow> J (applyUsage usage i)"
  shows "J inventory'"
proof -
  from run obtain h wi wb where
    l: "buildPalletLoop opt inventory [] 0 0 0 = Some (pal_layers pallet, h, wi, wb, inventory')"
    by (auto simp: buildPallet_def bind_eq_Some_conv)
  define I0 where "I0 = (\<lambda>(i::PackingItem list) (ls::Layer list) (ch::real) (cwi::real)
      (cwb::real). J i)"
  have "I0 inventory' (pal_layers pallet) h wi wb \<and>
        (\<not> hasRemaining inventory' \<or> maxHeight opt - h \<le> HEIGHT_TOLERANCE
          \<or> maxWeightBase opt - wb \<le> EPSILON
          \<or> selectNextLayer opt inventory' (maxHeight opt - h) (maxWeightBase opt - wb) = None)"
    by (rule buildPalletLoop_invariant[OF l]) (simp_all add: I0_def init step)
  then show ?thesis by (simp add: I0_def)
qed

lemma optimizeLoop_distinct:
  assumes run: "optimizeLoop opt inv0 pallets palletId = Some (Inr result)"
    and pos: "\<forall>item\<in>set inv0. 0 < pi_remaining item"
  shows "distinct (map (\<lambda>item. sku_id (pi_sku item)) inv0)"
proof -
  define J where "J = (\<lambda>i :: PackingItem list. map pi_sku i = map pi_sku inv0 \<and>
      (\<forall>j k. j < length inv0 \<and> k < j \<and>
          sku_id (pi_sku (inv0 ! k)) = sku_id (pi_sku (inv0 ! j)) \<longrightarrow> i ! j = inv0 ! j))"
  have Jstep: "J (applyUsage usage i)" if "J i" for i usage
  proof -
    from that have s: "map pi_sku i = map pi_sku inv0" by (simp add: J_def)
    then have len: "length i = length inv0" by (metis length_map)
    have sku: "pi_sku (i ! m) = pi_sku (inv0 ! m)" if "m < length inv0" for m
      using s that len by (metis nth_map)
    have "applyUsage usage i ! j = inv0 ! j"
      if "j < length inv0" "k < j" "sku_id (pi_sku (inv0 ! k)) = sku_id (pi_sku (inv0 ! j))" for j k
    proof -
      have "applyUsage usage i ! j = i ! j"
        using that len by (intro applyUsage_shadowed[of j i k]) (auto simp: sku)
      with \<open>J i\<close> that show ?thesis by (auto simp: J_def)
    qed
    with s show ?thesis by (auto simp: J_def applyUsage_skus)
  qed
  define I0 where "I0 = (\<lambda>(i::PackingItem list) (ps::Pallet list) (pid::nat). J i)"
  have "\<exists>i pid. I0 i result pid \<and> \<not> hasRemaining i"
  proof (rule optimizeLoop_invariant[OF run])
    show "I0 inv0 pallets palletId" by (simp add: I0_def J_def)
  next
    fix i ps pid pallet i'
    assume "I0 i ps pid" "buildPallet opt i pid = Some (pallet, i')"
    then show "I0 i' (ps @ [pallet]) (pid + 1)"
      unfolding I0_def using Jstep by (intro buildPallet_inventory[of opt i pid pallet i' J]) auto
  qed
  then obtain i where J: "J i" and fin: "\<not> hasRemaining i" by (auto simp: I0_def)
  from J have len: "length i = length inv0" unfolding J_def by (metis length_map)
  have none: "sku_id (pi_sku (inv0 ! k)) \<noteq> sku_id (pi_sku (inv0 ! j))"
    if "j < length inv0" "k < j" for j k
  proof
    assume "sku_id (pi_sku (inv0 ! k)) = sku_id (pi_sku (inv0 ! j))"
    with J that have "i ! j = inv0 ! j" by (auto simp: J_def)
    moreover have "0 < pi_remaining (inv0 ! j)" using pos that by simp
    moreover have "i ! j \<in> set i" using that len by simp
    ultimately show False using fin by (auto simp: hasRemaining_def list_ex_iff)
  qed
  show ?thesis
    unfolding distinct_conv_nth
  proof (intro allI impI)
    fix a b
    assume "a < length (map (\<lambda>item. sku_id (pi_sku item)) inv0)"
      "b < length (map (\<lambda>item. sku_id (pi_sku item)) inv0)" "a \<noteq> b"
    then show "map (\<lambda>item. sku_id (pi_sku item)) inv0 ! a \<noteq> map (\<lambda>item. sku_id (pi_sku item)) inv0 ! b"
      using none[of a b] none[of b a] by (cases "a < b") auto
  qed
qed

subsection \<open>Units placed in a layer\<close>

lemma packLayerForHeight_usage:
  assumes run: "packLayerForHeight opt inventory h mh mw = Some c"
  shows "distinct (map fst (lc_usage c)) \<and>
         (\<forall>k. usageCount (lc_usage c) k = unitsIn k (ly_items (lc_layer c))) \<and>
         (\<forall>p\<in>set (ly_items (lc_layer c)).
            pl_quantity p = 1 \<and> (\<exists>item\<in>set inventory. pl_sku p = pi_sku item)) \<and>
         ly_items (lc_layer c) \<noteq> []"
proof -
  define I0 where "I0 = (\<lambda>st :: packing.
      distinct (map fst (pk_usage st)) \<and>
      (\<forall>k. usageCount (pk_usage st) k = unitsIn k (pk_placedItems st)) \<and>
      (\<forall>p\<in>set (pk_placedItems st).
         pl_quantity p = 1 \<and> (\<exists>item\<in>set inventory. pl_sku p = pi_sku item)))"
  have "\<exists>st. I0 st \<and> pk_placedItems st \<noteq> [] \<and>
           ly_items (lc_layer c) = pk_placedItems st \<and> ly_height (lc_layer c) = h \<and>
           ly_weight (lc_layer c) = pk_layerWeightInput st \<and>
           lc_usage c = pk_usage st \<and> lc_weightBase c = pk_layerWeightBase st \<and>
           lc_areaUsed c = pk_areaUsed st"
    using run
  proof (rule packLayerForHeight_invariant)
    show "I0 \<lparr> pk_grid = createGrid opt, pk_placedItems = [], pk_usage = [],
                   pk_areaUsed = 0, pk_layerWeightInput = 0, pk_layerWeightBase = 0 \<rparr>"
      by (simp add: I0_def usageCount_def unitsIn_def)
  next
    fix st cand option position
    assume I: "I0 st" and cand: "cand \<in> set (layerQueue inventory h)"
    from layerQueue_member[OF cand] obtain item where item: "item \<in> set inventory"
      "lq_sku cand = pi_sku item"
      by blast
    define st' where "st' = placeUnit cand (toBaseWeight opt (lq_weight cand)) option position st"
    have u: "pk_usage st' = AList.update (sku_id (lq_sku cand))
                (usageCount (pk_usage st) (sku_id (lq_sku cand)) + 1) (pk_usage st)"
      by (simp add: st'_def placeUnit_def Let_def usageCount_def)
    obtain placed where p: "pk_placedItems st' = pk_placedItems st @ [placed]"
      "pl_sku placed = lq_sku cand" "pl_quantity placed = 1"
      by (simp add: st'_def placeUnit_def Let_def)
    have 1: "distinct (map fst (pk_usage st'))"
      using I by (simp add: u I0_def distinct_update)
    have 2: "usageCount (pk_usage st') k = unitsIn k (pk_placedItems st')" for k
      using I by (simp add: u p I0_def usageCount_def unitsIn_def update_conv')
    have 3: "\<forall>p\<in>set (pk_placedItems st').
         pl_quantity p = 1 \<and> (\<exists>item\<in>set inventory. pl_sku p = pi_sku item)"
      using I item p by (auto simp: I0_def)
    from 1 2 3 show "I0 (placeUnit cand (toBaseWeight opt (lq_weight cand)) option position st)"
      unfolding st'_def[symmetric] by (simp add: I0_def)
  qed
  then show ?thesis by (auto simp: I0_def)
qed

lemma placeUnits_appended:
  "\<exists>new. pk_placedItems (placeUnits opt mw cand sortedOptions w remaining st)
            = pk_placedItems st @ new \<and>
         (\<forall>p\<in>set new. pl_sku p = lq_sku cand) \<and> length new \<le> nat \<lceil>remaining\<rceil>"
proof (induction opt mw cand sortedOptions w remaining st rule: placeUnits.induct)
  case (1 opt mw cand sortedOptions w remaining st)
  show ?case
  proof (cases "0 < remaining \<and> \<not> pk_layerWeightBase st + w > mw + EPSILON")
    case False
    then have "placeUnits opt mw cand sortedOptions w remaining st = st"
      by (subst placeUnits.simps) auto
    then show ?thesis by simp
  next
    case True
    show ?thesis
    proof (cases "findPlacementForOptions opt (pk_grid st) sortedOptions")
      case None
      with True have "placeUnits opt mw cand sortedOptions w remaining st = st"
        by (subst placeUnits.simps) auto
      then show ?thesis by simp
    next
      case (Some r)
      obtain option position where r: "r = (option, position)" by (cases r) auto
      define st' where "st' = placeUnit cand w option position st"
      obtain placed where p: "pk_placedItems st' = pk_placedItems st @ [placed]"
        "pl_sku placed = lq_sku cand"
        by (simp add: st'_def placeUnit_def Let_def)
      have rec: "placeUnits opt mw cand sortedOptions w remaining st
            = placeUnits opt mw cand sortedOptions w (remaining - 1) st'"
        using True Some r by (subst placeUnits.simps) (simp add: st'_def)
      have "\<exists>new. pk_placedItems (placeUnits opt mw cand sortedOptions w (remaining - 1) st')
              = pk_placedItems st' @ new \<and>
          (\<forall>p\<in>set new. pl_sku p = lq_sku cand) \<and> length new \<le> nat \<lceil>remaining - 1\<rceil>"
        unfolding st'_def by (rule "1.IH"[of r option position]) (use True Some r in auto)
      then obtain new where
        n: "pk_placedItems (placeUnits opt mw cand sortedOptions w (remaining - 1) st')
              = pk_placedItems st' @ new"
          "\<forall>p\<in>set new. pl_sku p = lq_sku cand" "length new \<le> nat \<lceil>remaining - 1\<rceil>"
        by blast
      have "0 < \<lceil>remaining\<rceil>" using True by simp
      then have "Suc (nat \<lceil>remaining - 1\<rceil>) = nat \<lceil>remaining\<rceil>"
        by (simp add: Suc_nat_eq_nat_zadd1)
      with n(3) have "length (placed # new) \<le> nat \<lceil>remaining\<rceil>" by simp
      moreover have "pk_placedItems (placeUnits opt mw cand sortedOptions w remaining st)
            = pk_placedItems st @ (placed # new)"
        by (simp add: rec n(1) p(1))
      moreover have "\<forall>p\<in>set (placed # new). pl_sku p = lq_sku cand"
        using n(2) p(2) by simp
      ultimately show ?thesis by blast
    qed
  qed
qed

lemma packCandidate_appended:
  "\<exists>new. pk_placedItems (packCandidate opt mw cand st) = pk_placedItems st @ new \<and>
         (\<forall>p\<in>set new. pl_sku p = lq_sku cand) \<and> length new \<le> nat \<lceil>lq_remaining cand\<rceil>"
proof (cases "toBaseWeight opt (lq_weight cand) \<le> 0")
  case True
  then have "packCandidate opt mw cand st = st" by (simp add: packCandidate_def)
  then show ?thesis by simp
next
  case False
  then show ?thesis
    using placeUnits_appended[of opt mw cand _ "toBaseWeight opt (lq_weight cand)"
        "lq_remaining cand" st]
    by (simp add: packCandidate_def)
qed

lemma fold_packCandidate_units:
  "unitsIn k (pk_placedItems (fold (packCandidate opt mw) queue st))
     \<le> unitsIn k (pk_placedItems st)
       + sum_list (map (\<lambda>cand. nat \<lceil>lq_remaining cand\<rceil>)
                    (filter (\<lambda>cand. sku_id (lq_sku cand) = k) queue))"
proof (induction queue arbitrary: st)
  case Nil
  show ?case by simp
next
  case (Cons cand queue)
  obtain new where n: "pk_placedItems (packCandidate opt mw cand st) = pk_placedItems st @ new"
    "\<forall>p\<in>set new. pl_sku p = lq_sku cand" "length new \<le> nat \<lceil>lq_remaining cand\<rceil>"
    using packCandidate_appended by blast
  have "unitsIn k new \<le> (if sku_id (lq_sku cand) = k then nat \<lceil>lq_remaining cand\<rceil> else 0)"
  proof (cases "sku_id (lq_sku cand) = k")
    case True
    have "unitsIn k new \<le> length new" by (simp add: unitsIn_def)
    with n(3) True show ?thesis by simp
  next
    case False
    with n(2) have "filter (\<lambda>p. sku_id (pl_sku p) = k) new = []"
      by (auto simp: filter_empty_conv)
    with False show ?thesis by (simp add: unitsIn_def)
  qed
  moreover have "unitsIn k (pk_placedItems (packCandidate opt mw cand st))
      = unitsIn k (pk_placedItems st) + unitsIn k new"
    by (simp add: n(1) unitsIn_def)
  ultimately show ?case
    using Cons.IH[of "packCandidate opt mw cand st"] by auto
qed

lemma sum_filter_insertBy:
  "sum_list (map f (filter P (insertBy cmp x ys)))
     = (if P x then f x else (0::nat)) + sum_list (map f (filter P ys))"
  by (induction ys) auto

lemma sum_filter_sortBy:
  "sum_list (map f (filter P (sortBy cmp xs))) = sum_list (map (f :: 'a \<Rightarrow> nat) (filter P xs))"
  by (induction xs) (auto simp: sortBy_def sum_filter_insertBy)

lemma layerQueue_units:
  "sum_list (map (\<lambda>cand. nat \<lceil>lq_remaining cand\<rceil>)
              (filter (\<lambda>cand. sku_id (lq_sku cand) = k) (layerQueue inventory h)))
     \<le> sum_list (map (\<lambda>item. nat \<lceil>pi_remaining item\<rceil>)
              (filter (\<lambda>item. sku_id (pi_sku item) = k) inventory))"
proof -
  have "sum_list (map (\<lambda>cand. nat \<lceil>lq_remaining cand\<rceil>)
              (filter (\<lambda>cand. sku_id (lq_sku cand) = k)
                 (List.map_filter (toQueueItem h) (filter (\<lambda>item. pi_remaining item > 0) inventory))))
     \<le> sum_list (map (\<lambda>item. nat \<lceil>pi_remaining item\<rceil>)
              (filter (\<lambda>item. sku_id (pi_sku item) = k) inventory))"
  proof (induction inventory)
    case Nil
    show ?case by (simp add: List.map_filter_simps)
  next
    case (Cons item inventory)
    show ?case
    proof (cases "pi_remaining item > 0")
      case False
      with Cons show ?thesis by simp
    next
      case True
      show ?thesis
      proof (cases "toQueueItem h item")
        case None
        with True Cons show ?thesis by (simp add: List.map_filter_simps)
      next
        case (Some cand)
        then have "lq_sku cand = pi_sku item" "lq_remaining cand = pi_remaining item"
          by (auto simp: toQueueItem_def split: list.splits)
        with True Some Cons show ?thesis by (simp add: List.map_filter_simps)
      qed
    qed
  qed
  then show ?thesis by (simp add: layerQueue_def sum_filter_sortBy)
qed

lemma sum_filter_distinct_key:
  assumes "distinct (map key xs)" and "j < length xs"
  shows "sum_list (map f (filter (\<lambda>x. key x = key (xs ! j)) xs)) = (f (xs ! j) :: nat)"
  using assms
proof (induction xs arbitrary: j)
  case Nil
  then show ?case by simp
next
  case (Cons x xs)
  show ?case
  proof (cases j)
    case 0
    from Cons.prems(1) have "filter (\<lambda>y. key y = key x) xs = []"
      by (auto simp: filter_empty_conv intro: rev_image_eqI)
    with 0 show ?thesis by simp
  next
    case (Suc j')
    with Cons.prems have "key x \<noteq> key (xs ! j')" by (auto simp: image_iff)
    with Suc Cons.prems Cons.IH[of j'] show ?thesis by simp
  qed
qed

lemma layer_units_bound:
  assumes "distinct (map (\<lambda>item. sku_id (pi_sku item)) inventory)"
    and "packLayerForHeight opt inventory h mh mw = Some c"
    and "j < length inventory"
  shows "unitsIn (sku_id (pi_sku (inventory ! j))) (ly_items (lc_layer c))
           \<le> nat \<lceil>pi_remaining (inventory ! j)\<rceil>"
proof -
  define k where "k = sku_id (pi_sku (inventory ! j))"
  from assms(2) have items: "ly_items (lc_layer c) = pk_placedItems
      (fold (packCandidate opt mw) (layerQueue inventory h)
         \<lparr> pk_grid = createGrid opt, pk_placedItems = [], pk_usage = [],
           pk_areaUsed = 0, pk_layerWeightInput = 0, pk_layerWeightBase = 0 \<rparr>)"
    by (auto simp: packLayerForHeight_def Let_def split: if_splits)
  have "unitsIn k (ly_items (lc_layer c))
      \<le> sum_list (map (\<lambda>cand. nat \<lceil>lq_remaining cand\<rceil>)
                    (filter (\<lambda>cand. sku_id (lq_sku cand) = k) (layerQueue inventory h)))"
    unfolding items
    using fold_packCandidate_units[of k opt mw "layerQueue inventory h"
        "\<lparr> pk_grid = createGrid opt, pk_placedItems = [], pk_usage = [],
           pk_areaUsed = 0, pk_layerWeightInput = 0, pk_layerWeightBase = 0 \<rparr>"]
    by (simp add: unitsIn_def)
  also have "\<dots> \<le> sum_list (map (\<lambda>item. nat \<lceil>pi_remaining item\<rceil>)
              (filter (\<lambda>item. sku_id (pi_sku item) = k) inventory))"
    by (rule layerQueue_units)
  also have "\<dots> = nat \<lceil>pi_remaining (inventory ! j)\<rceil>"
    unfolding k_def using assms(1,3) by (rule sum_filter_distinct_key)
  finally show ?thesis by (simp add: k_def)
qed

subsection \<open>Conservation of units\<close>

lemma ceiling_consume:
  assumes "0 \<le> r" and "n \<le> nat \<lceil>r\<rceil>"
  shows "int n + \<lceil>max 0 (r - real n)\<rceil> = \<lceil>r\<rceil>"
proof (cases "real n \<le> r")
  case True
  then have "max 0 (r - real n) = r - of_int (int n)" by simp
  then show ?thesis by (simp only: ceiling_diff_of_int)
next
  case False
  then have "r \<le> of_int (int n)" by simp
  then have "\<lceil>r\<rceil> \<le> int n" by (simp only: ceiling_le_iff)
  moreover have "int n \<le> \<lceil>r\<rceil>"
  proof -
    from assms(1) have "0 \<le> \<lceil>r\<rceil>" by simp
    with assms(2) show ?thesis by (simp add: le_nat_iff)
  qed
  ultimately show ?thesis using False by simp
qed

lemma layer_step:
  assumes sound: "inventorySound i"
    and sel: "selectNextLayer opt i mh mw = Some c"
  shows "inventorySound (applyUsage (lc_usage c) i) \<and>
         map pi_sku (applyUsage (lc_usage c) i) = map pi_sku i \<and>
         (\<forall>j<length i.
            int (unitsIn (sku_id (pi_sku (i ! j))) (ly_items (lc_layer c)))
              + \<lceil>pi_remaining (applyUsage (lc_usage c) i ! j)\<rceil> = \<lceil>pi_remaining (i ! j)\<rceil>) \<and>
         ly_items (lc_layer c) \<noteq> [] \<and>
         (\<forall>p\<in>set (ly_items (lc_layer c)). pl_quantity p = 1 \<and> pl_sku p \<in> pi_sku ` set i)"
proof -
  define i' where "i' = applyUsage (lc_usage c) i"
  from selectNextLayer_Some[OF sel] obtain hv where
    p: "packLayerForHeight opt i hv mh mw = Some c" by blast
  from sound have d: "distinct (map (\<lambda>item. sku_id (pi_sku item)) i)"
    and nn: "\<And>j. j < length i \<Longrightarrow> 0 \<le> pi_remaining (i ! j)"
    by (simp_all add: inventorySound_def)
  from packLayerForHeight_usage[OF p] have
    ud: "distinct (map fst (lc_usage c))"
    and uc: "\<And>k. usageCount (lc_usage c) k = unitsIn k (ly_items (lc_layer c))"
    and pl: "\<forall>p\<in>set (ly_items (lc_layer c)). pl_quantity p = 1 \<and> pl_sku p \<in> pi_sku ` set i"
    and ne: "ly_items (lc_layer c) \<noteq> []"
    by auto
  have skus: "map pi_sku i' = map pi_sku i" unfolding i'_def by (rule applyUsage_skus)
  then have len: "length i' = length i" by (metis length_map)
  have nth: "i' ! j = (i ! j) \<lparr> pi_remaining :=
      max 0 (pi_remaining (i ! j) - real (unitsIn (sku_id (pi_sku (i ! j))) (ly_items (lc_layer c)))) \<rparr>"
    if j: "j < length i" for j
  proof (cases "map_of (lc_usage c) (sku_id (pi_sku (i ! j)))")
    case None
    then have "unitsIn (sku_id (pi_sku (i ! j))) (ly_items (lc_layer c)) = 0"
      using uc[of "sku_id (pi_sku (i ! j))"] by (simp add: usageCount_def)
    moreover have "i' ! j = i ! j"
      unfolding i'_def using applyUsage_distinct[OF d ud j] None by simp
    ultimately show ?thesis using nn[OF j] by simp
  next
    case (Some n)
    then have "unitsIn (sku_id (pi_sku (i ! j))) (ly_items (lc_layer c)) = n"
      using uc[of "sku_id (pi_sku (i ! j))"] by (simp add: usageCount_def)
    then show ?thesis
      unfolding i'_def using applyUsage_distinct[OF d ud j] Some by simp
  qed
  have cons: "int (unitsIn (sku_id (pi_sku (i ! j))) (ly_items (lc_layer c)))
              + \<lceil>pi_remaining (i' ! j)\<rceil> = \<lceil>pi_remaining (i ! j)\<rceil>" if j: "j < length i" for j
    using ceiling_consume[OF nn[OF j] layer_units_bound[OF d p j]] by (simp add: nth[OF j])
  have "0 \<le> pi_remaining item" if "item \<in> set i'" for item
  proof -
    from that obtain j where "j < length i" "item = i' ! j"
      by (auto simp: in_set_conv_nth len)
    then show ?thesis by (simp add: nth)
  qed
  moreover have "distinct (map (\<lambda>item. sku_id (pi_sku item)) i')"
    using d arg_cong[OF skus, of "map sku_id"] by (simp add: comp_def)
  ultimately have "inventorySound i'" by (simp add: inventorySound_def)
  with skus cons ne pl show ?thesis by (simp add: i'_def)
qed

lemma buildPallet_conservation:
  assumes sound: "inventorySound i"
    and run: "buildPallet opt i palletId = Some (pallet, i')"
  shows "inventorySound i' \<and> map pi_sku i' = map pi_sku i \<and>
         (\<forall>j<length i.
            int (layerUnits (sku_id (pi_sku (i ! j))) (pal_layers pallet))
              + \<lceil>pi_remaining (i' ! j)\<rceil> = \<lceil>pi_remaining (i ! j)\<rceil>) \<and>
         (\<forall>layer\<in>set (pal_layers pallet). ly_items layer \<noteq> [] \<and>
            (\<forall>p\<in>set (ly_items layer). pl_quantity p = 1 \<and> pl_sku p \<in> pi_sku ` set i))"
proof -
  from run obtain h wi wb where
    l: "buildPalletLoop opt i [] 0 0 0 = Some (pal_layers pallet, h, wi, wb, i')"
    by (auto simp: buildPallet_def bind_eq_Some_conv)
  define I0 where "I0 = (\<lambda>(i1::PackingItem list) (ls::Layer list) (ch::real) (cwi::real)
      (cwb::real). inventorySound i1 \<and> map pi_sku i1 = map pi_sku i \<and>
         (\<forall>j<length i.
            int (layerUnits (sku_id (pi_sku (i ! j))) ls)
              + \<lceil>pi_remaining (i1 ! j)\<rceil> = \<lceil>pi_remaining (i ! j)\<rceil>) \<and>
         (\<forall>layer\<in>set ls. ly_items layer \<noteq> [] \<and>
            (\<forall>p\<in>set (ly_items layer). pl_quantity p = 1 \<and> pl_sku p \<in> pi_sku ` set i)))"
  have "I0 i' (pal_layers pallet) h wi wb \<and>
        (\<not> hasRemaining i' \<or> maxHeight opt - h \<le> HEIGHT_TOLERANCE
          \<or> maxWeightBase opt - wb \<le> EPSILON
          \<or> selectNextLayer opt i' (maxHeight opt - h) (maxWeightBase opt - wb) = None)"
  proof (rule buildPalletLoop_invariant[OF l])
    show "I0 i [] 0 0 0" using sound by (simp add: I0_def layerUnits_def)
  next
    fix i1 ls ch cwi cwb c
    assume I: "I0 i1 ls ch cwi cwb"
      and sel: "selectNextLayer opt i1 (maxHeight opt - ch) (maxWeightBase opt - cwb) = Some c"
    from I have s1: "inventorySound i1" and sk: "map pi_sku i1 = map pi_sku i"
      and c1: "\<And>j. j < length i \<Longrightarrow> int (layerUnits (sku_id (pi_sku (i ! j))) ls)
              + \<lceil>pi_remaining (i1 ! j)\<rceil> = \<lceil>pi_remaining (i ! j)\<rceil>"
      and p1: "\<forall>layer\<in>set ls. ly_items layer \<noteq> [] \<and>
            (\<forall>p\<in>set (ly_items layer). pl_quantity p = 1 \<and> pl_sku p \<in> pi_sku ` set i)"
      by (simp_all add: I0_def)
    from sk have len: "length i1 = length i" by (metis length_map)
    have sku: "pi_sku (i1 ! j) = pi_sku (i ! j)" if "j < length i" for j
      using sk that len by (metis nth_map)
    have img: "pi_sku ` set i1 = pi_sku ` set i"
      using sk by (metis set_map)
    from layer_step[OF s1 sel] have
      s2: "inventorySound (applyUsage (lc_usage c) i1)"
      and sk2: "map pi_sku (applyUsage (lc_usage c) i1) = map pi_sku i1"
      and c2: "\<And>j. j < length i1 \<Longrightarrow>
            int (unitsIn (sku_id (pi_sku (i1 ! j))) (ly_items (lc_layer c)))
              + \<lceil>pi_remaining (applyUsage (lc_usage c) i1 ! j)\<rceil> = \<lceil>pi_remaining (i1 ! j)\<rceil>"
      and ne: "ly_items (lc_layer c) \<noteq> []"
      and p2: "\<forall>p\<in>set (ly_items (lc_layer c)). pl_quantity p = 1 \<and> pl_sku p \<in> pi_sku ` set i1"
      by blast+
    have "int (layerUnits (sku_id (pi_sku (i ! j))) (ls @ [lc_layer c]))
              + \<lceil>pi_remaining (applyUsage (lc_usage c) i1 ! j)\<rceil> = \<lceil>pi_remaining (i ! j)\<rceil>"
      if j: "j < length i" for j
      using c1[OF j] c2[of j] j len sku[OF j] by (simp add: layerUnits_def)
    with s2 sk2 sk ne p1 p2 img
    show "I0 (applyUsage (lc_usage c) i1) (ls @ [lc_layer c]) (ch + ly_height (lc_layer c))
          (cwi + ly_weight (lc_layer c)) (cwb + lc_weightBase c)"
      by (simp add: I0_def)
  qed
  then show ?thesis by (simp add: I0_def)
qed

lemma optimizeLoop_conservation:
  assumes run: "optimizeLoop opt inv0 [] palletId = Some (Inr result)"
    and sound: "inventorySound inv0"
  shows "(\<forall>j<length inv0.
            int (layerUnits (sku_id (pi_sku (inv0 ! j))) (concat (map pal_layers result)))
              = \<lceil>pi_remaining (inv0 ! j)\<rceil>) \<and>
         (\<forall>layer\<in>set (concat (map pal_layers result)).
            \<forall>p\<in>set (ly_items layer). pl_quantity p = 1 \<and> pl_sku p \<in> pi_sku ` set inv0)"
proof -
  define I0 where "I0 = (\<lambda>(i::PackingItem list) (ps::Pallet list) (pid::nat).
      inventorySound i \<and> map pi_sku i = map pi_sku inv0 \<and>
      (\<forall>j<length inv0.
         int (layerUnits (sku_id (pi_sku (inv0 ! j))) (concat (map pal_layers ps)))
           + \<lceil>pi_remaining (i ! j)\<rceil> = \<lceil>pi_remaining (inv0 ! j)\<rceil>) \<and>
      (\<forall>layer\<in>set (concat (map pal_layers ps)).
         \<forall>p\<in>set (ly_items layer). pl_quantity p = 1 \<and> pl_sku p \<in> pi_sku ` set inv0))"
  have "\<exists>i pid. I0 i result pid \<and> \<not> hasRemaining i"
  proof (rule optimizeLoop_invariant[OF run])
    show "I0 inv0 [] palletId" using sound by (simp add: I0_def layerUnits_def)
  next
    fix i ps pid pallet i'
    assume I: "I0 i ps pid" and b: "buildPallet opt i pid = Some (pallet, i')"
    from I have s1: "inventorySound i" and sk: "map pi_sku i = map pi_sku inv0"
      and c1: "\<And>j. j < length inv0 \<Longrightarrow>
         int (layerUnits (sku_id (pi_sku (inv0 ! j))) (concat (map pal_layers ps)))
           + \<lceil>pi_remaining (i ! j)\<rceil> = \<lceil>pi_remaining (inv0 ! j)\<rceil>"
      and p1: "\<forall>layer\<in>set (concat (map pal_layers ps)).
         \<forall>p\<in>set (ly_items layer). pl_quantity p = 1 \<and> pl_sku p \<in> pi_sku ` set inv0"
      by (simp_all add: I0_def)
    from sk have len: "length i = length inv0" by (metis length_map)
    have sku: "pi_sku (i ! j) = pi_sku (inv0 ! j)" if "j < length inv0" for j
      using sk that len by (metis nth_map)
    have img: "pi_sku ` set i = pi_sku ` set inv0"
      using sk by (metis set_map)
    from buildPallet_conservation[OF s1 b] have
      s2: "inventorySound i'" and sk2: "map pi_sku i' = map pi_sku i"
      and c2: "\<And>j. j < length i \<Longrightarrow>
            int (layerUnits (sku_id (pi_sku (i ! j))) (pal_layers pallet))
              + \<lceil>pi_remaining (i' ! j)\<rceil> = \<lceil>pi_remaining (i ! j)\<rceil>"
      and p2: "\<forall>layer\<in>set (pal_layers pallet).
            (\<forall>p\<in>set (ly_items layer). pl_quantity p = 1 \<and> pl_sku p \<in> pi_sku ` set i)"
      by blast+
    have "int (layerUnits (sku_id (pi_sku (inv0 ! j))) (concat (map pal_layers (ps @ [pallet]))))
           + \<lceil>pi_remaining (i' ! j)\<rceil> = \<lceil>pi_remaining (inv0 ! j)\<rceil>"
      if j: "j < length inv0" for j
      using c1[OF j] c2[of j] j len sku[OF j] by (simp add: layerUnits_def)
    with s2 sk2 sk p1 p2 img show "I0 i' (ps @ [pallet]) (pid + 1)"
      by (simp add: I0_def)
  qed
  then obtain i where I: "I0 i result 0 \<or> (\<exists>pid. I0 i result pid)" and fin: "\<not> hasRemaining i"
    by blast
  then have s: "inventorySound i" and sk: "map pi_sku i = map pi_sku inv0"
    and c: "\<And>j. j < length inv0 \<Longrightarrow>
         int (layerUnits (sku_id (pi_sku (inv0 ! j))) (concat (map pal_layers result)))
           + \<lceil>pi_remaining (i ! j)\<rceil> = \<lceil>pi_remaining (inv0 ! j)\<rceil>"
    and p: "\<forall>layer\<in>set (concat (map pal_layers result)).
         \<forall>p\<in>set (ly_items layer). pl_quantity p = 1 \<and> pl_sku p \<in> pi_sku ` set inv0"
    by (auto simp: I0_def)
  from sk have len: "length i = length inv0" by (metis length_map)
  have "pi_remaining (i ! j) = 0" if "j < length inv0" for j
  proof -
    have "i ! j \<in> set i" using that len by simp
    with s fin have "0 \<le> pi_remaining (i ! j)" "\<not> 0 < pi_remaining (i ! j)"
      by (auto simp: inventorySound_def hasRemaining_def list_ex_iff)
    then show ?thesis by simp
  qed
  with c p show ?thesis by simp
qed

lemma initializeInventory_sound:
  assumes "initializeInventory opt items = Inr inv0"
    and "distinct (map (\<lambda>item. sku_id (pi_sku item)) inv0)"
  shows "inventorySound inv0"
  using assms(2) initializeInventory_Inr[OF assms(1)]
  by (auto simp: inventorySound_def packingItemOf_def)

lemma optimize_conservation:
  assumes "optimize opt items = Some (Inr pallets)"
  shows "\<exists>inv0. initializeInventory opt items = Inr inv0 \<and>
           inv0 = map (packingItemOf opt) (filter (\<lambda>item. 0 < oi_quantity item) items) \<and>
           distinct (map (\<lambda>item. sku_id (pi_sku item)) inv0) \<and>
           (\<forall>j<length inv0.
              int (layerUnits (sku_id (pi_sku (inv0 ! j))) (concat (map pal_layers pallets)))
                = \<lceil>pi_remaining (inv0 ! j)\<rceil>) \<and>
           (\<forall>layer\<in>set (concat (map pal_layers pallets)).
              \<forall>p\<in>set (ly_items layer). pl_quantity p = 1 \<and> pl_sku p \<in> pi_sku ` set inv0)"
proof -
  from assms obtain inv0 where i: "initializeInventory opt items = Inr inv0"
    and l: "optimizeLoop opt inv0 [] 1 = Some (Inr pallets)"
    by (auto simp: optimize_def split: sum.splits)
  have eq: "inv0 = map (packingItemOf opt) (filter (\<lambda>item. 0 < oi_quantity item) items)"
    using i by (rule initializeInventory_Inr)
  then have pos: "\<forall>item\<in>set inv0. 0 < pi_remaining item"
    by (auto simp: packingItemOf_def)
  have d: "distinct (map (\<lambda>item. sku_id (pi_sku item)) inv0)"
    using l pos by (rule optimizeLoop_distinct)
  have s: "inventorySound inv0" using i d by (rule initializeInventory_sound)
  from optimizeLoop_conservation[OF l s] i eq d show ?thesis by blast
qed




lemma layerUnits_absent:
  assumes "\<forall>layer\<in>set layers. \<forall>p\<in>set (ly_items layer). sku_id (pl_sku p) \<noteq> skuId"
  shows "layerUnits skuId layers = 0"
  using assms by (induction layers) (auto simp: layerUnits_def unitsIn_def filter_empty_conv)


subsection \<open>Termination on distinct SKU ids\<close>

lemma unitsLeft_decreases:
  assumes len: "length i' = length i"
    and step: "\<And>j. j < length i \<Longrightarrow> int (u j) + \<lceil>pi_remaining (i' ! j)\<rceil> = \<lceil>pi_remaining (i ! j)\<rceil>"
    and nn: "\<And>j. j < length i \<Longrightarrow> 0 \<le> pi_remaining (i' ! j)"
    and some: "\<exists>j<length i. 0 < u j"
  shows "unitsLeft i' < unitsLeft i"
proof -
  have le: "nat \<lceil>pi_remaining (i' ! j)\<rceil> + u j = nat \<lceil>pi_remaining (i ! j)\<rceil>" if "j < length i" for j
  proof -
    have "0 \<le> \<lceil>pi_remaining (i' ! j)\<rceil>" using nn[OF that] by simp
    with step[OF that] show ?thesis by linarith
  qed
  have a: "unitsLeft i' = (\<Sum>j = 0..<length i. nat \<lceil>pi_remaining (i' ! j)\<rceil>)"
    unfolding unitsLeft_def using len by (simp add: sum_list_sum_nth)
  have b: "unitsLeft i = (\<Sum>j = 0..<length i. nat \<lceil>pi_remaining (i ! j)\<rceil>)"
    unfolding unitsLeft_def by (simp add: sum_list_sum_nth)
  show ?thesis
    unfolding a b
  proof (rule sum_strict_mono_ex1)
    show "finite {0..<length i}" by simp
    show "\<forall>j\<in>{0..<length i}. nat \<lceil>pi_remaining (i' ! j)\<rceil> \<le> nat \<lceil>pi_remaining (i ! j)\<rceil>"
      using le by (metis atLeastLessThan_iff le_add1)
    from some obtain j where "j < length i" "0 < u j" by blast
    with le[of j] have "nat \<lceil>pi_remaining (i' ! j)\<rceil> < nat \<lceil>pi_remaining (i ! j)\<rceil>"
      by linarith
    moreover have "j \<in> {0..<length i}" using \<open>j < length i\<close> by simp
    ultimately show "\<exists>j\<in>{0..<length i}. nat \<lceil>pi_remaining (i' ! j)\<rceil> < nat \<lceil>pi_remaining (i ! j)\<rceil>"
      by blast
  qed
qed

lemma placed_unit_counted:
  assumes "p \<in> set placed" and "pl_sku p \<in> pi_sku ` set i"
  shows "\<exists>j<length i. 0 < unitsIn (sku_id (pi_sku (i ! j))) placed"
proof -
  from assms(2) obtain j where j: "j < length i" "pl_sku p = pi_sku (i ! j)"
    by (auto simp: in_set_conv_nth)
  have "p \<in> set (filter (\<lambda>q. sku_id (pl_sku q) = sku_id (pi_sku (i ! j))) placed)"
    using assms(1) j(2) by simp
  then have "0 < unitsIn (sku_id (pi_sku (i ! j))) placed"
    unfolding unitsIn_def by (metis length_pos_if_in_set)
  with j(1) show ?thesis by blast
qed

lemma layer_step_decreases:
  assumes sound: "inventorySound i"
    and sel: "selectNextLayer opt i mh mw = Some c"
  shows "unitsLeft (applyUsage (lc_usage c) i) < unitsLeft i"
proof -
  from layer_step[OF sound sel] have
    s2: "inventorySound (applyUsage (lc_usage c) i)"
    and c2: "\<And>j. j < length i \<Longrightarrow>
            int (unitsIn (sku_id (pi_sku (i ! j))) (ly_items (lc_layer c)))
              + \<lceil>pi_remaining (applyUsage (lc_usage c) i ! j)\<rceil> = \<lceil>pi_remaining (i ! j)\<rceil>"
    and ne: "ly_items (lc_layer c) \<noteq> []"
    and p2: "\<forall>p\<in>set (ly_items (lc_layer c)). pl_quantity p = 1 \<and> pl_sku p \<in> pi_sku ` set i"
    by blast+
  from ne obtain p where p: "p \<in> set (ly_items (lc_layer c))" by (cases "ly_items (lc_layer c)") auto
  with p2 have "pl_sku p \<in> pi_sku ` set i" by blast
  from placed_unit_counted[OF p this]
  have some: "\<exists>j<length i. 0 < unitsIn (sku_id (pi_sku (i ! j))) (ly_items (lc_layer c))" .
  have len: "length (applyUsage (lc_usage c) i) = length i" by (rule applyUsage_length)
  have nn: "0 \<le> pi_remaining (applyUsage (lc_usage c) i ! j)" if "j < length i" for j
    using s2 that len by (simp add: inventorySound_def)
  show ?thesis
    using len c2 nn some
    by (rule unitsLeft_decreases[where u = "\<lambda>j. unitsIn (sku_id (pi_sku (i ! j))) (ly_items (lc_layer c))"])
qed

lemma buildPalletLoop_terminates:
  "inventorySound i \<Longrightarrow> \<exists>r. buildPalletLoop opt i ls ch cwi cwb = Some r"
proof (induction "unitsLeft i" arbitrary: i ls ch cwi cwb rule: less_induct)
  case less
  show ?case
  proof (cases "hasRemaining i \<and> \<not> maxHeight opt - ch \<le> HEIGHT_TOLERANCE
                 \<and> \<not> maxWeightBase opt - cwb \<le> EPSILON")
    case False
    then show ?thesis by (subst buildPalletLoop.simps) auto
  next
    case True
    show ?thesis
    proof (cases "selectNextLayer opt i (maxHeight opt - ch) (maxWeightBase opt - cwb)")
      case None
      with True show ?thesis by (subst buildPalletLoop.simps) auto
    next
      case (Some c)
      have "\<exists>r. buildPalletLoop opt (applyUsage (lc_usage c) i) (ls @ [lc_layer c])
                  (ch + ly_height (lc_layer c)) (cwi + ly_weight (lc_layer c))
                  (cwb + lc_weightBase c) = Some r"
        using layer_step_decreases[OF less.prems Some] layer_step[OF less.prems Some]
        by (intro less.hyps) auto
      with True Some show ?thesis by (subst buildPalletLoop.simps) auto
    qed
  qed
qed

lemma buildPallet_terminates:
  "inventorySound i \<Longrightarrow> \<exists>pallet i'. buildPallet opt i palletId = Some (pallet, i')"
  using buildPalletLoop_terminates[of i opt "[]" 0 0 0]
  by (auto simp: buildPallet_def)

lemma buildPallet_decreases:
  assumes sound: "inventorySound i"
    and run: "buildPallet opt i palletId = Some (pallet, i')"
    and layers: "pal_layers pallet \<noteq> []"
  shows "inventorySound i' \<and> unitsLeft i' < unitsLeft i"
proof -
  from buildPallet_conservation[OF sound run] have
    s2: "inventorySound i'" and sk: "map pi_sku i' = map pi_sku i"
    and c2: "\<And>j. j < length i \<Longrightarrow>
            int (layerUnits (sku_id (pi_sku (i ! j))) (pal_layers pallet))
              + \<lceil>pi_remaining (i' ! j)\<rceil> = \<lceil>pi_remaining (i ! j)\<rceil>"
    and p2: "\<forall>layer\<in>set (pal_layers pallet). ly_items layer \<noteq> [] \<and>
            (\<forall>p\<in>set (ly_items layer). pl_quantity p = 1 \<and> pl_sku p \<in> pi_sku ` set i)"
    by blast+
  from sk have len: "length i' = length i" by (metis length_map)
  from layers obtain layer where l: "layer \<in> set (pal_layers pallet)"
    by (cases "pal_layers pallet") auto
  with p2 obtain p where p: "p \<in> set (ly_items layer)" "pl_sku p \<in> pi_sku ` set i"
    by (cases "ly_items layer") auto
  from placed_unit_counted[OF p] obtain j where
    j: "j < length i" "0 < unitsIn (sku_id (pi_sku (i ! j))) (ly_items layer)" by blast
  have "unitsIn (sku_id (pi_sku (i ! j))) (ly_items layer)
          \<le> layerUnits (sku_id (pi_sku (i ! j))) (pal_layers pallet)"
    unfolding layerUnits_def by (intro member_le_sum_list) (use l in auto)
  with j have some: "\<exists>j<length i. 0 < layerUnits (sku_id (pi_sku (i ! j))) (pal_layers pallet)"
    by (intro exI[of _ j]) simp
  have nn: "0 \<le> pi_remaining (i' ! j)" if "j < length i" for j
    using s2 that len by (simp add: inventorySound_def)
  have "unitsLeft i' < unitsLeft i"
    using len c2 nn some
    by (rule unitsLeft_decreases[where u = "\<lambda>j. layerUnits (sku_id (pi_sku (i ! j))) (pal_layers pallet)"])
  with s2 show ?thesis by simp
qed

lemma optimizeLoop_terminates:
  "inventorySound i \<Longrightarrow> \<exists>r. optimizeLoop opt i pallets palletId = Some r"
proof (induction "unitsLeft i" arbitrary: i pallets palletId rule: less_induct)
  case less
  show ?case
  proof (cases "hasRemaining i")
    case False
    then show ?thesis by (subst optimizeLoop.simps) simp
  next
    case True
    from buildPallet_terminates[OF less.prems] obtain pallet i' where
      b: "buildPallet opt i palletId = Some (pallet, i')" by blast
    show ?thesis
    proof (cases "pal_layers pallet = []")
      case e: True
      with True b show ?thesis by (subst optimizeLoop.simps) simp
    next
      case ne: False
      from buildPallet_decreases[OF less.prems b ne]
      have "\<exists>r. optimizeLoop opt i' (pallets @ [pallet]) (palletId + 1) = Some r"
        by (intro less.hyps) auto
      with True b ne show ?thesis by (subst optimizeLoop.simps) simp
    qed
  qed
qed

subsection \<open>Weightless SKUs\<close>

lemma packLayerForHeight_positive_weight:
  assumes ok: "inventoryConsistent opt inventory"
    and run: "packLayerForHeight opt inventory h mh mw = Some c"
  shows "\<forall>p\<in>set (ly_items (lc_layer c)). 0 < toBaseWeight opt (sku_weight (pl_sku p))"
proof -
  define I0 where "I0 = (\<lambda>st :: packing.
      \<forall>p\<in>set (pk_placedItems st). 0 < toBaseWeight opt (sku_weight (pl_sku p)))"
  have "\<exists>st. I0 st \<and> pk_placedItems st \<noteq> [] \<and>
           ly_items (lc_layer c) = pk_placedItems st \<and> ly_height (lc_layer c) = h \<and>
           ly_weight (lc_layer c) = pk_layerWeightInput st \<and>
           lc_usage c = pk_usage st \<and> lc_weightBase c = pk_layerWeightBase st \<and>
           lc_areaUsed c = pk_areaUsed st"
    using run
  proof (rule packLayerForHeight_invariant)
    show "I0 \<lparr> pk_grid = createGrid opt, pk_placedItems = [], pk_usage = [],
                   pk_areaUsed = 0, pk_layerWeightInput = 0, pk_layerWeightBase = 0 \<rparr>"
      by (simp add: I0_def)
  next
    fix st cand option position
    assume I: "I0 st" and cand: "cand \<in> set (layerQueue inventory h)"
      and w: "0 < toBaseWeight opt (lq_weight cand)"
    from layerQueue_member[OF cand] obtain item where item: "item \<in> set inventory"
      "lq_sku cand = pi_sku item" "lq_weight cand = pi_weight item"
      by blast
    with ok have "lq_weight cand = sku_weight (lq_sku cand)"
      by (auto simp: inventoryConsistent_def)
    with I w show "I0 (placeUnit cand (toBaseWeight opt (lq_weight cand)) option position st)"
      by (auto simp: I0_def placeUnit_def Let_def)
  qed
  then show ?thesis by (auto simp: I0_def)
qed

lemma optimize_never_packs_weightless:
  assumes line: "line \<in> set items" "0 < oi_quantity line"
    and w: "toBaseWeight opt (sku_weight (oi_sku line)) \<le> 0"
  shows "optimize opt items \<noteq> Some (Inr pallets)"
proof
  assume run: "optimize opt items = Some (Inr pallets)"
  from optimize_conservation[OF run] obtain inv0 where
    eq: "inv0 = map (packingItemOf opt) (filter (\<lambda>item. 0 < oi_quantity item) items)"
    and d: "distinct (map (\<lambda>item. sku_id (pi_sku item)) inv0)"
    and c: "\<And>j. j < length inv0 \<Longrightarrow>
              int (layerUnits (sku_id (pi_sku (inv0 ! j))) (concat (map pal_layers pallets)))
                = \<lceil>pi_remaining (inv0 ! j)\<rceil>"
    and p: "\<forall>layer\<in>set (concat (map pal_layers pallets)).
              \<forall>p\<in>set (ly_items layer). pl_quantity p = 1 \<and> pl_sku p \<in> pi_sku ` set inv0"
    by blast
  have "\<forall>pallet\<in>set pallets. \<forall>layer\<in>set (pal_layers pallet).
          \<forall>p\<in>set (ly_items layer). 0 < toBaseWeight opt (sku_weight (pl_sku p))"
    using run by (rule optimize_layers) (rule packLayerForHeight_positive_weight)
  then have heavy: "\<forall>layer\<in>set (concat (map pal_layers pallets)).
          \<forall>p\<in>set (ly_items layer). 0 < toBaseWeight opt (sku_weight (pl_sku p))"
    by auto
  from line have "packingItemOf opt line \<in> set inv0" by (simp add: eq)
  then obtain j where j: "j < length inv0" "inv0 ! j = packingItemOf opt line"
    by (auto simp: in_set_conv_nth)
  then have sku: "pi_sku (inv0 ! j) = oi_sku line" and rem: "pi_remaining (inv0 ! j) = oi_quantity line"
    by (simp_all add: packingItemOf_def)
  have "0 < \<lceil>pi_remaining (inv0 ! j)\<rceil>" using line(2) rem by simp
  with c[OF j(1)] have "0 < int (layerUnits (sku_id (oi_sku line)) (concat (map pal_layers pallets)))"
    by (simp only: sku)
  then have "0 < layerUnits (sku_id (oi_sku line)) (concat (map pal_layers pallets))"
    by simp
  then have "\<not> (\<forall>layer\<in>set (concat (map pal_layers pallets)).
               \<forall>p\<in>set (ly_items layer). sku_id (pl_sku p) \<noteq> sku_id (oi_sku line))"
    using layerUnits_absent[of "concat (map pal_layers pallets)" "sku_id (oi_sku line)"] by auto
  then obtain layer q where q: "layer \<in> set (concat (map pal_layers pallets))"
    "q \<in> set (ly_items layer)" "sku_id (pl_sku q) = sku_id (oi_sku line)"
    by blast
  with p obtain k where k: "k < length inv0" "pl_sku q = pi_sku (inv0 ! k)"
    by (auto simp: in_set_conv_nth) (metis imageE in_set_conv_nth)
  have "k = j"
  proof (rule ccontr)
    assume "k \<noteq> j"
    with d k(1) j(1) have "sku_id (pi_sku (inv0 ! k)) \<noteq> sku_id (pi_sku (inv0 ! j))"
      by (simp add: distinct_conv_nth)
    with k(2) q(3) sku show False by simp
  qed
  with k(2) sku have "pl_sku q = oi_sku line" by simp
  with heavy q w show False by force
qed

lemma optimizeLoop_error:
  assumes "optimizeLoop opt i pallets palletId = Some (Inl e)"
  shows "\<exists>name skuId. e = UnableToPackSku name skuId"
proof -
  define Q where "Q = (\<lambda>r :: error + Pallet list.
      \<forall>e. r = Inl e \<longrightarrow> (\<exists>name skuId. e = UnableToPackSku name skuId))"
  have "Q r" if "optimizeLoop opt0 inv0 ps0 pid0 = Some r" for opt0 inv0 ps0 pid0 r
  proof (rule optimizeLoop.raw_induct
      [where P = "\<lambda>opt0 inv0 ps0 pid0 r. Q r", OF _ that], goal_cases)
    case (1 loop opt1 i1 ps pid r1)
    show ?case
    proof (cases "hasRemaining i1")
      case False
      with 1(2) show ?thesis by (auto simp: Q_def)
    next
      case True
      with 1(2) obtain pallet i' where
        b: "buildPallet opt1 i1 pid = Some (pallet, i')"
        and rest: "(if pal_layers pallet = [] then Some (Inl (blockingError i'))
              else loop opt1 i' (ps @ [pallet]) (pid + 1)) = Some r1"
        by (auto simp: bind_eq_Some_conv)
      show ?thesis
      proof (cases "pal_layers pallet = []")
        case e: True
        have same: "i' = i1" using b e by (rule buildPallet_no_layers_inventory)
        from True obtain item where "getFirstRemainingItem i1 = Some item"
          by (cases "List.find (\<lambda>item. pi_remaining item > 0) i1")
             (auto simp: hasRemaining_def getFirstRemainingItem_def find_None_iff list_ex_iff)
        with rest e same show ?thesis by (auto simp: Q_def blockingError_def)
      next
        case False
        with rest have "loop opt1 i' (ps @ [pallet]) (pid + 1) = Some r1" by simp
        from 1(1)[OF this] show ?thesis .
      qed
    qed
  qed
  from this[OF assms] show ?thesis by (simp add: Q_def)
qed

lemma initializeInventoryFrom_error:
  "initializeInventoryFrom opt items acc = Inl e \<Longrightarrow> \<exists>name skuId. e = SkuExceedsPallet name skuId"
  by (induction items arbitrary: acc) (auto simp: Let_def split: if_splits)

lemma optimize_error:
  assumes "optimize opt items = Some (Inl e)"
  shows "\<exists>name skuId. e = SkuExceedsPallet name skuId \<or> e = UnableToPackSku name skuId"
proof (cases "initializeInventory opt items")
  case (Inl e')
  with assms have "e = e'" by (simp add: optimize_def)
  with Inl initializeInventoryFrom_error[of opt items "[]" e] show ?thesis
    by (auto simp: initializeInventory_def)
next
  case (Inr inv0)
  with assms have "optimizeLoop opt inv0 [] 1 = Some (Inl e)" by (simp add: optimize_def)
  from optimizeLoop_error[OF this] show ?thesis by blast
qed

section \<open>Evaluated examples\<close>

lemma smallPallet_unitBox:
  "optimize smallPallet [orderLine unitBox 1] =
     Some (Inr [\<lparr> pal_id = 1,
                  pal_layers = [\<lparr> ly_items = [\<lparr> pl_sku = unitBox, pl_quantity = 1, pl_x = 0,
                                                  pl_y = 0, pl_width = 1, pl_length = 1,
                                                  pl_rotated = False \<rparr>],
                                   ly_height = 1, ly_weight = 1 \<rparr>],
                  pal_totalHeight = 1, pal_totalWeight = 1,
                  pal_palletSize = \<lparr> ps_length = 1, ps_width = 1 \<rparr>,
                  pal_freightClass = ''Class 50'' \<rparr>])"
  by code_simp

lemma smallPallet_weightlessBox:
  "buildPallet smallPallet [inventoryOf smallPallet weightlessBox 1] 1
     = Some (emptyPallet smallPallet 1, [inventoryOf smallPallet weightlessBox 1])"
  by code_simp



lemma widePallet_two_boxes:
  "optimize widePallet [orderLine unitBox 2] =
     Some (Inr [\<lparr> pal_id = 1,
                  pal_layers = [\<lparr> ly_items = [unitBoxAt 0 0, unitBoxAt 1 0],
                                   ly_height = 1, ly_weight = 2 \<rparr>],
                  pal_totalHeight = 1, pal_totalWeight = 2,
                  pal_palletSize = \<lparr> ps_length = 2, ps_width = 1 \<rparr>,
                  pal_freightClass = ''Class 50'' \<rparr>])"
  by code_simp







lemma smallPallet_weightless_order:
  "optimize smallPallet [orderLine weightlessBox 1] =
     Some (Inl (UnableToPackSku ''weightless box'' ''Z''))"
  by code_simp

lemma smallPallet_weightless_and_drum:
  "optimize smallPallet [orderLine weightlessBox 1, orderLine drum 1] =
     Some (Inl (SkuExceedsPallet ''drum'' ''D''))"
  by code_simp

lemma smallPallet_weightless_orientations:
  "generateOrientationOptions smallPallet weightlessBox =
     [\<lparr> oo_length = 1, oo_width = 1, oo_height = 1, oo_footprintArea = 1 \<rparr>]"
  by code_simp

section \<open>Claims\<close>

text \<open>
  C9. Order lines of quantity zero or less are inert: \<open>optimize\<close> gives the same
  result, pallets or error or no return, as on the list without them. So such a line
  of a SKU that fits no orientation raises nothing and adds nothing to a pallet.
\<close>

theorem nonpositive_lines_inert:
  "optimize opt items = optimize opt (filter (\<lambda>item. 0 < oi_quantity item) items)"
  by (simp add: optimize_def initializeInventory_def initializeInventoryFrom_filter)

theorem nonpositive_lines_inert_witness:
  "optimize smallPallet [orderLine drum 0, orderLine unitBox 1, orderLine crate (- 2)]
     = optimize smallPallet [orderLine unitBox 1]"
  using nonpositive_lines_inert [of smallPallet "[orderLine drum 0, orderLine unitBox 1, orderLine crate (- 2)]"]
  by (simp add: orderLine_def)

text \<open>
  C7. On a footprint of positive length and width: when \<open>buildPallet\<close> returns a
  pallet without layers while an inventory item
  still has a remaining quantity above zero, the driver raises the error that names the
  first such item, and the result of the call is that error alone: the pallets
  collected so far (\<open>pallets\<close>, any list) are not returned. Every failure of
  \<open>optimize\<close> is this error or the one of inventory setup, and its result is the
  error without pallets.
\<close>

theorem empty_pallet_raises:
  assumes "hasRemaining inventory"
    and "buildPallet opt inventory palletId = Some (pallet, inventory')"
    and "pal_layers pallet = []"
    and "0 < ps_length (palletSize opt)" and "0 < ps_width (palletSize opt)"
  shows "(\<exists>blockingItem.
           getFirstRemainingItem inventory = Some blockingItem \<and>
           0 < pi_remaining blockingItem \<and>
           optimizeLoop opt inventory pallets palletId =
             Some (Inl (UnableToPackSku (sku_name (pi_sku blockingItem))
                                        (sku_id (pi_sku blockingItem))))) \<and>
         (\<forall>items e. optimize opt items = Some (Inl e) \<longrightarrow>
            (\<exists>name skuId. e = SkuExceedsPallet name skuId \<or> e = UnableToPackSku name skuId))"
proof -
  have same: "inventory' = inventory"
    using assms(2,3) by (rule buildPallet_no_layers_inventory)
  from assms(1) obtain blockingItem where
    f: "List.find (\<lambda>item. pi_remaining item > 0) inventory = Some blockingItem"
    by (cases "List.find (\<lambda>item. pi_remaining item > 0) inventory")
       (auto simp: hasRemaining_def find_None_iff list_ex_iff)
  then have pos: "0 < pi_remaining blockingItem"
    by (auto simp: find_Some_iff)
  have "optimizeLoop opt inventory pallets palletId =
          Some (Inl (UnableToPackSku (sku_name (pi_sku blockingItem)) (sku_id (pi_sku blockingItem))))"
    using assms(1-3) same f
    by (subst optimizeLoop.simps) (simp add: blockingError_def getFirstRemainingItem_def)
  with f pos optimize_error show ?thesis by (auto simp: getFirstRemainingItem_def)
qed

theorem empty_pallet_raises_witness:
  "hasRemaining [inventoryOf smallPallet weightlessBox 1] \<and>
   buildPallet smallPallet [inventoryOf smallPallet weightlessBox 1] 2
     = Some (emptyPallet smallPallet 2, [inventoryOf smallPallet weightlessBox 1]) \<and>
   pal_layers (emptyPallet smallPallet 2) = [] \<and>
   optimizeLoop smallPallet [inventoryOf smallPallet weightlessBox 1]
       [emptyPallet smallPallet 1] 2
     = Some (Inl (UnableToPackSku ''weightless box'' ''Z''))"
proof -
  have h1: "hasRemaining [inventoryOf smallPallet weightlessBox 1]"
    by (simp add: hasRemaining_def inventoryOf_def)
  have h2: "buildPallet smallPallet [inventoryOf smallPallet weightlessBox 1] 2
     = Some (emptyPallet smallPallet 2, [inventoryOf smallPallet weightlessBox 1])"
    by code_simp
  have h3: "pal_layers (emptyPallet smallPallet 2) = []"
    by (simp add: emptyPallet_def)
  have p: "0 < ps_length (palletSize smallPallet)" "0 < ps_width (palletSize smallPallet)"
    by (simp_all add: smallPallet_def)
  from empty_pallet_raises [OF h1 h2 h3 p, of "[emptyPallet smallPallet 1]"] h1 h2 h3
  show ?thesis
    by (auto simp: getFirstRemainingItem_def inventoryOf_def weightlessBox_def)
qed

text \<open>
  C8. On a footprint of positive length and width, every pallet that \<open>buildPallet\<close>
  produces, and so every pallet \<open>optimize\<close> returns, carries the class that the
  threshold table gives for the density of its weight in pounds over its volume in cubic
  feet, the height floored at \<open>EPSILON\<close>; the volume is positive, also for an empty
  pallet of height zero.
\<close>

theorem freight_class_of_pallet:
  assumes "0 < ps_length (palletSize opt)" and "0 < ps_width (palletSize opt)"
  shows "(\<forall>inventory palletId pallet inventory'.
            buildPallet opt inventory palletId = Some (pallet, inventory') \<longrightarrow>
            freightClassified opt pallet) \<and>
         (\<forall>items pallets.
            optimize opt items = Some (Inr pallets) \<longrightarrow>
            (\<forall>pallet\<in>set pallets. freightClassified opt pallet))"
proof (intro conjI allI impI)
  fix inventory palletId pallet inventory'
  assume "buildPallet opt inventory palletId = Some (pallet, inventory')"
  with assms show "freightClassified opt pallet" by (rule buildPallet_freightClassified)
next
  fix items pallets
  assume run: "optimize opt items = Some (Inr pallets)"
  show "\<forall>pallet\<in>set pallets. freightClassified opt pallet"
    by (rule optimize_pallets[OF run, where R = "\<lambda>i. True"])
       (auto intro: buildPallet_freightClassified[OF assms])
qed

theorem freight_class_of_pallet_witness:
  "0 < ps_length (palletSize smallPallet) \<and> 0 < ps_width (palletSize smallPallet) \<and>
   freightClassified smallPallet (emptyPallet smallPallet 1) \<and>
   pal_totalHeight (emptyPallet smallPallet 1) = 0 \<and>
   pal_freightClass (emptyPallet smallPallet 1) = ''Class 500''"
proof -
  have p: "0 < ps_length (palletSize smallPallet)" "0 < ps_width (palletSize smallPallet)"
    by (simp_all add: smallPallet_def)
  from freight_class_of_pallet [OF p] smallPallet_weightlessBox p
  show ?thesis by (auto simp: emptyPallet_def)
qed




text \<open>
  C3. On a footprint of positive length and width, in every layer of every pallet that a
  successful \<open>optimize\<close> returns, each placed item lies within the pallet footprint
  (\<open>0 \<le> x\<close>, \<open>0 \<le> y\<close>, \<open>x + length \<le>\<close> footprint length, \<open>y + width \<le>\<close> footprint
  width) and the footprints \<open>[x, x + length) \<times> [y, y + width)\<close> of two different
  placed items of the layer do not intersect.
\<close>

theorem layers_well_placed:
  assumes "0 < ps_length (palletSize opt)" and "0 < ps_width (palletSize opt)"
    and "optimize opt items = Some (Inr pallets)"
    and "pallet \<in> set pallets" and "layer \<in> set (pal_layers pallet)"
  shows "(\<forall>p\<in>set (ly_items layer). withinFootprint opt p) \<and>
         (\<forall>i j. i < length (ly_items layer) \<and> j < length (ly_items layer) \<and> i \<noteq> j \<longrightarrow>
            \<not> footprintsIntersect (ly_items layer ! i) (ly_items layer ! j) \<and>
            footprint (ly_items layer ! i) \<inter> footprint (ly_items layer ! j) = {})"
proof -
  have "\<forall>pallet\<in>set pallets. \<forall>layer\<in>set (pal_layers pallet).
          (\<forall>p\<in>set (ly_items layer). withinFootprint opt p) \<and>
          sorted_wrt (\<lambda>p q. \<not> footprintsIntersect p q) (ly_items layer)"
    using assms(3)
    by (rule optimize_layers) (rule packLayerForHeight_gridInvariant[OF assms(1,2)])
  with assms(4,5) have w: "\<forall>p\<in>set (ly_items layer). withinFootprint opt p"
    and s: "sorted_wrt (\<lambda>p q. \<not> footprintsIntersect p q) (ly_items layer)"
    by blast+
  have sym: "footprintsIntersect p q \<longleftrightarrow> footprintsIntersect q p" for p q
    by (auto simp: footprintsIntersect_def)
  have "\<not> footprintsIntersect (ly_items layer ! i) (ly_items layer ! j)"
    if "i < length (ly_items layer)" "j < length (ly_items layer)" "i \<noteq> j" for i j
  proof (cases "i < j")
    case True
    with s that show ?thesis by (simp add: sorted_wrt_iff_nth_less)
  next
    case False
    with that have "j < i" by simp
    with s that have "\<not> footprintsIntersect (ly_items layer ! j) (ly_items layer ! i)"
      by (simp add: sorted_wrt_iff_nth_less)
    then show ?thesis using sym by blast
  qed
  with w show ?thesis by (simp add: footprintsIntersect_iff)
qed

theorem layers_well_placed_witness:
  "withinFootprint widePallet (unitBoxAt 0 0) \<and> withinFootprint widePallet (unitBoxAt 1 0) \<and>
   \<not> footprintsIntersect (unitBoxAt 0 0) (unitBoxAt 1 0) \<and>
   footprint (unitBoxAt 0 0) \<inter> footprint (unitBoxAt 1 0) = {}"
proof -
  have p: "0 < ps_length (palletSize widePallet)" "0 < ps_width (palletSize widePallet)"
    by (simp_all add: widePallet_def)
  have "(\<forall>p\<in>set [unitBoxAt 0 0, unitBoxAt 1 0]. withinFootprint widePallet p) \<and>
         (\<forall>i j. i < 2 \<and> j < 2 \<and> i \<noteq> j \<longrightarrow>
            \<not> footprintsIntersect ([unitBoxAt 0 0, unitBoxAt 1 0] ! i) ([unitBoxAt 0 0, unitBoxAt 1 0] ! j) \<and>
            footprint ([unitBoxAt 0 0, unitBoxAt 1 0] ! i) \<inter> footprint ([unitBoxAt 0 0, unitBoxAt 1 0] ! j) = {})"
    using layers_well_placed [OF p widePallet_two_boxes, of _ "\<lparr> ly_items = [unitBoxAt 0 0, unitBoxAt 1 0],
                                   ly_height = 1, ly_weight = 2 \<rparr>"]
    by simp
  then have w: "\<forall>p\<in>set [unitBoxAt 0 0, unitBoxAt 1 0]. withinFootprint widePallet p"
    and d: "\<forall>i j. i < 2 \<and> j < 2 \<and> i \<noteq> j \<longrightarrow>
            \<not> footprintsIntersect ([unitBoxAt 0 0, unitBoxAt 1 0] ! i) ([unitBoxAt 0 0, unitBoxAt 1 0] ! j) \<and>
            footprint ([unitBoxAt 0 0, unitBoxAt 1 0] ! i) \<inter> footprint ([unitBoxAt 0 0, unitBoxAt 1 0] ! j) = {}"
    by blast+
  from d[rule_format, of 0 1] w show ?thesis by simp
qed

text \<open>
  C4. On a footprint of positive length and width, in every layer of every pallet that a
  successful \<open>optimize\<close> returns, every placed item was placed with one of the orientations generated for its SKU whose height is
  within \<open>HEIGHT_TOLERANCE\<close> (one thousandth) of the layer's height.
\<close>

theorem layers_height_homogeneous:
  assumes "optimize opt items = Some (Inr pallets)"
    and "pallet \<in> set pallets" and "layer \<in> set (pal_layers pallet)"
    and "p \<in> set (ly_items layer)"
    and "0 < ps_length (palletSize opt)" and "0 < ps_width (palletSize opt)"
  shows "\<exists>option\<in>set (generateOrientationOptions opt (pl_sku p)).
           \<bar>oo_height option - ly_height layer\<bar> \<le> 1 / 1000 \<and> placedWith option p"
proof -
  have "\<forall>pallet\<in>set pallets. \<forall>layer\<in>set (pal_layers pallet). heightHomogeneous opt layer"
    using assms(1) by (rule optimize_layers) (rule packLayerForHeight_homogeneous)
  with assms(2-4) show ?thesis
    by (auto simp: heightHomogeneous_def list_all_iff list_ex_iff HEIGHT_TOLERANCE_def)
qed

theorem layers_height_homogeneous_witness:
  "\<exists>option\<in>set (generateOrientationOptions widePallet unitBox).
     \<bar>oo_height option - 1\<bar> \<le> 1 / 1000 \<and> placedWith option (unitBoxAt 1 0)"
  using layers_height_homogeneous [OF widePallet_two_boxes, of _
      "\<lparr> ly_items = [unitBoxAt 0 0, unitBoxAt 1 0], ly_height = 1, ly_weight = 2 \<rparr>"
      "unitBoxAt 1 0"]
  by (simp add: unitBoxAt_def widePallet_def)

text \<open>
  C2. For an optimizer with positive height and weight limits (the constructor admits no
  other) and a footprint of positive length and width, every pallet that a successful \<open>optimize\<close> returns has a total height, the sum
  of its layer heights, of at most \<open>maxHeight + HEIGHT_TOLERANCE\<close>, and the weights of
  its placed units, converted to pounds, sum to at most the weight limit in pounds plus
  \<open>EPSILON\<close>; this sum is the pallet's total weight converted to pounds.
\<close>

theorem pallets_within_budget:
  assumes "0 < maxHeight opt" and "0 < maxWeightBase opt"
    and "optimize opt items = Some (Inr pallets)" and "pallet \<in> set pallets"
    and "0 < ps_length (palletSize opt)" and "0 < ps_width (palletSize opt)"
  shows "pal_totalHeight pallet = sum_list (map ly_height (pal_layers pallet)) \<and>
         pal_totalHeight pallet \<le> maxHeight opt + HEIGHT_TOLERANCE \<and>
         palletWeightLbs opt pallet \<le> maxWeightBase opt + EPSILON \<and>
         toBaseWeight opt (pal_totalWeight pallet) = palletWeightLbs opt pallet"
proof -
  have "\<forall>pallet\<in>set pallets.
         pal_totalHeight pallet = sum_list (map ly_height (pal_layers pallet)) \<and>
         pal_totalHeight pallet \<le> maxHeight opt + HEIGHT_TOLERANCE \<and>
         palletWeightLbs opt pallet \<le> maxWeightBase opt + EPSILON \<and>
         toBaseWeight opt (pal_totalWeight pallet) = palletWeightLbs opt pallet"
  proof (rule optimize_pallets[OF assms(3), where R = "inventoryConsistent opt"])
    show "inventoryConsistent opt i" if "initializeInventory opt items = Inr i" for i
      using that by (rule initializeInventory_consistent)
  next
    fix i pid pallet i'
    assume "inventoryConsistent opt i" "buildPallet opt i pid = Some (pallet, i')"
    with buildPallet_bounds[OF assms(1,2)]
    show "(pal_totalHeight pallet = sum_list (map ly_height (pal_layers pallet)) \<and>
         pal_totalHeight pallet \<le> maxHeight opt + HEIGHT_TOLERANCE \<and>
         palletWeightLbs opt pallet \<le> maxWeightBase opt + EPSILON \<and>
         toBaseWeight opt (pal_totalWeight pallet) = palletWeightLbs opt pallet) \<and>
         inventoryConsistent opt i'"
      by blast
  qed
  with assms(4) show ?thesis by blast
qed

theorem pallets_within_budget_witness:
  "0 < maxHeight widePallet \<and> 0 < maxWeightBase widePallet \<and>
   (1::real) \<le> maxHeight widePallet + HEIGHT_TOLERANCE \<and>
   palletWeightLbs widePallet
     \<lparr> pal_id = 1,
       pal_layers = [\<lparr> ly_items = [unitBoxAt 0 0, unitBoxAt 1 0], ly_height = 1, ly_weight = 2 \<rparr>],
       pal_totalHeight = 1, pal_totalWeight = 2,
       pal_palletSize = \<lparr> ps_length = 2, ps_width = 1 \<rparr>,
       pal_freightClass = ''Class 50'' \<rparr> \<le> maxWeightBase widePallet + EPSILON"
proof -
  have p: "0 < maxHeight widePallet" "0 < maxWeightBase widePallet"
    by (simp_all add: widePallet_def)
  have q: "0 < ps_length (palletSize widePallet)" "0 < ps_width (palletSize widePallet)"
    by (simp_all add: widePallet_def)
  from pallets_within_budget [OF p widePallet_two_boxes _ q] p show ?thesis by simp
qed







text \<open>
  C10, amended. On a footprint of positive length and width: an order line of quantity
  above zero whose SKU weighs zero pounds or less
  per unit is never placed: no layer that \<open>packLayerForHeight\<close> packs from a
  consistent inventory holds an item of its SKU, and \<open>optimize\<close> never returns pallets
  for an order with such a line. When inventory setup passes (every line of quantity
  above zero has an orientation), the only result \<open>optimize\<close> can return is the
  empty-pallet error naming a remaining SKU, and it does return it when the SKU ids of
  the lines of quantity above zero are pairwise distinct. (When another line has no
  orientation, the error is that of inventory setup instead.)
\<close>

theorem weightless_sku_blocks:
  assumes "line \<in> set items" and "0 < oi_quantity line"
    and "toBaseWeight opt (sku_weight (oi_sku line)) \<le> 0"
    and "0 < ps_length (palletSize opt)" and "0 < ps_width (palletSize opt)"
  shows "(\<forall>inventory h mh mw c.
            inventoryConsistent opt inventory \<and>
            packLayerForHeight opt inventory h mh mw = Some c \<longrightarrow>
            (\<forall>p\<in>set (ly_items (lc_layer c)). pl_sku p \<noteq> oi_sku line)) \<and>
         (\<forall>pallets. optimize opt items \<noteq> Some (Inr pallets)) \<and>
         (\<forall>inv0 r. initializeInventory opt items = Inr inv0 \<and> optimize opt items = Some r \<longrightarrow>
            (\<exists>name skuId. r = Inl (UnableToPackSku name skuId))) \<and>
         (\<forall>inv0. initializeInventory opt items = Inr inv0 \<and>
            distinct (map (\<lambda>item. sku_id (pi_sku item)) inv0) \<longrightarrow>
            (\<exists>name skuId. optimize opt items = Some (Inl (UnableToPackSku name skuId))))"
proof (intro conjI allI impI)
  fix inventory h mh mw c
  assume "inventoryConsistent opt inventory \<and> packLayerForHeight opt inventory h mh mw = Some c"
  then have "\<forall>p\<in>set (ly_items (lc_layer c)). 0 < toBaseWeight opt (sku_weight (pl_sku p))"
    using packLayerForHeight_positive_weight by blast
  with assms(3) show "\<forall>p\<in>set (ly_items (lc_layer c)). pl_sku p \<noteq> oi_sku line" by force
next
  fix pallets
  show "optimize opt items \<noteq> Some (Inr pallets)"
    using assms(1-3) by (rule optimize_never_packs_weightless)
next
  fix inv0 r
  assume a: "initializeInventory opt items = Inr inv0 \<and> optimize opt items = Some r"
  then have l: "optimizeLoop opt inv0 [] 1 = Some r" by (auto simp: optimize_def)
  show "\<exists>name skuId. r = Inl (UnableToPackSku name skuId)"
  proof (cases r)
    case (Inl e)
    with l optimizeLoop_error[of opt inv0 "[]" 1 e] show ?thesis by simp
  next
    case (Inr pallets)
    with a optimize_never_packs_weightless[OF assms(1-3), of pallets] show ?thesis by simp
  qed
next
  fix inv0
  assume a: "initializeInventory opt items = Inr inv0 \<and>
            distinct (map (\<lambda>item. sku_id (pi_sku item)) inv0)"
  then have "inventorySound inv0" using initializeInventory_sound by blast
  from optimizeLoop_terminates[OF this, of opt "[]" 1] obtain r where
    l: "optimizeLoop opt inv0 [] 1 = Some r" by blast
  with a have o: "optimize opt items = Some r" by (simp add: optimize_def)
  show "\<exists>name skuId. optimize opt items = Some (Inl (UnableToPackSku name skuId))"
  proof (cases r)
    case (Inl e)
    with l o optimizeLoop_error[of opt inv0 "[]" 1 e] show ?thesis by auto
  next
    case (Inr pallets)
    with o optimize_never_packs_weightless[OF assms(1-3), of pallets] show ?thesis by simp
  qed
qed

theorem weightless_sku_blocks_witness:
  "orderLine weightlessBox 1 \<in> set [orderLine weightlessBox 1] \<and>
   0 < oi_quantity (orderLine weightlessBox 1) \<and>
   toBaseWeight smallPallet (sku_weight (oi_sku (orderLine weightlessBox 1))) \<le> 0 \<and>
   optimize smallPallet [orderLine weightlessBox 1] \<noteq> Some (Inr []) \<and>
   optimize smallPallet [orderLine weightlessBox 1] =
     Some (Inl (UnableToPackSku ''weightless box'' ''Z''))"
proof -
  have h: "orderLine weightlessBox 1 \<in> set [orderLine weightlessBox 1]"
    "0 < oi_quantity (orderLine weightlessBox 1)"
    "toBaseWeight smallPallet (sku_weight (oi_sku (orderLine weightlessBox 1))) \<le> 0"
    by (simp_all add: orderLine_def weightlessBox_def toBaseWeight_def smallPallet_def)
  have p: "0 < ps_length (palletSize smallPallet)" "0 < ps_width (palletSize smallPallet)"
    by (simp_all add: smallPallet_def)
  from weightless_sku_blocks [OF h p] have "optimize smallPallet [orderLine weightlessBox 1] \<noteq> Some (Inr [])"
    by blast
  with h smallPallet_weightless_order show ?thesis by simp
qed

theorem weightless_sku_counterexample:
  "orderLine weightlessBox 1 \<in> set [orderLine weightlessBox 1, orderLine drum 1] \<and>
   0 < oi_quantity (orderLine weightlessBox 1) \<and>
   toBaseWeight smallPallet (sku_weight (oi_sku (orderLine weightlessBox 1))) \<le> 0 \<and>
   generateOrientationOptions smallPallet (oi_sku (orderLine weightlessBox 1)) \<noteq> [] \<and>
   optimize smallPallet [orderLine weightlessBox 1, orderLine drum 1] =
     Some (Inl (SkuExceedsPallet ''drum'' ''D''))"
  using smallPallet_weightless_and_drum smallPallet_weightless_orientations
  by (simp add: orderLine_def weightlessBox_def toBaseWeight_def smallPallet_def)

end
